theory Spec2Isabelle
  imports Main "HOL-Library.Log_Nat"
begin

section \<open>Python strings\<close>

text \<open>
  A Python \<^verbatim>\<open>str\<close> is a sequence of Unicode code points, so a string is a list of
  natural numbers, one per code point; \<open>length\<close> counts what Python's \<^verbatim>\<open>len\<close> counts.
  Literals of the source that are plain ASCII are written \<open>u ''...''\<close>; the others are
  written as the list of their code points.
\<close>

type_synonym ustr = "nat list"

definition u :: "string \<Rightarrow> ustr" where
  "u s = map of_char s"

text \<open>
  Whitespace as \<^verbatim>\<open>str.strip\<close>, \<^verbatim>\<open>str.split\<close> and the pattern \<^verbatim>\<open>\s\<close> see it:
  U+0009..U+000D, U+001C..U+0020, U+0085, U+00A0, U+1680, U+2000..U+200A, U+2028, U+2029,
  U+202F, U+205F, U+3000.
\<close>

definition is_space :: "nat \<Rightarrow> bool" where
  "is_space c = ((0x09 \<le> c \<and> c \<le> 0x0D) \<or> (0x1C \<le> c \<and> c \<le> 0x20) \<or> c = 0x85 \<or> c = 0xA0
     \<or> c = 0x1680 \<or> (0x2000 \<le> c \<and> c \<le> 0x200A) \<or> c = 0x2028 \<or> c = 0x2029 \<or> c = 0x202F
     \<or> c = 0x205F \<or> c = 0x3000)"

text \<open>
  Decimal digits as the pattern \<^verbatim>\<open>\d\<close> sees them on a \<^verbatim>\<open>str\<close>: the characters of
  general category Nd (Unicode 15), which come in runs of ten starting at the code points
  below, and the mathematical digits U+1D7CE..U+1D7FF.
\<close>

definition nd_starts :: "nat list" where
  "nd_starts = [0x30, 0x660, 0x6F0, 0x7C0, 0x966, 0x9E6, 0xA66, 0xAE6, 0xB66, 0xBE6,
     0xC66, 0xCE6, 0xD66, 0xDE6, 0xE50, 0xED0, 0xF20, 0x1040, 0x1090, 0x17E0,
     0x1810, 0x1946, 0x19D0, 0x1A80, 0x1A90, 0x1B50, 0x1BB0, 0x1C40, 0x1C50, 0xA620,
     0xA8D0, 0xA900, 0xA9D0, 0xA9F0, 0xAA50, 0xABF0, 0xFF10, 0x104A0, 0x10D30, 0x11066,
     0x110F0, 0x11136, 0x111D0, 0x112F0, 0x11450, 0x114D0, 0x11650, 0x116C0, 0x11730, 0x118E0,
     0x11950, 0x11C50, 0x11D50, 0x11DA0, 0x11F50, 0x16A60, 0x16AC0, 0x16B50, 0x1E140, 0x1E2F0,
     0x1E4F0, 0x1E950, 0x1FBF0]"

definition is_digit :: "nat \<Rightarrow> bool" where
  "is_digit c = (list_ex (\<lambda>s. s \<le> c \<and> c < s + 10) nd_starts \<or> (0x1D7CE \<le> c \<and> c \<le> 0x1D7FF))"

definition strip :: "ustr \<Rightarrow> ustr" where
  "strip s = rev (dropWhile is_space (rev (dropWhile is_space s)))"

text \<open>\<^verbatim>\<open>sub in s\<close>: \<open>sub\<close> occurs in \<open>s\<close> as a contiguous block.\<close>

fun starts_with :: "ustr \<Rightarrow> ustr \<Rightarrow> bool" where
  "starts_with [] s = True"
| "starts_with (x # xs) [] = False"
| "starts_with (x # xs) (c # cs) = (x = c \<and> starts_with xs cs)"

fun contains :: "ustr \<Rightarrow> ustr \<Rightarrow> bool" where
  "contains sub [] = (sub = [])"
| "contains sub (c # cs) = (starts_with sub (c # cs) \<or> contains sub cs)"

text \<open>\<^verbatim>\<open>s.split(sep)\<close> for a one-character separator: never an empty list.\<close>

fun split_on :: "nat \<Rightarrow> ustr \<Rightarrow> ustr list" where
  "split_on sep [] = [[]]"
| "split_on sep (c # cs) =
     (if c = sep then [] # split_on sep cs
      else (case split_on sep cs of w # ws \<Rightarrow> (c # w) # ws | [] \<Rightarrow> [[c]]))"

text \<open>\<^verbatim>\<open>s.split()\<close>: the maximal runs of non-whitespace; \<open>cur\<close> is the run being read.\<close>

fun split_ws_from :: "ustr \<Rightarrow> ustr \<Rightarrow> ustr list" where
  "split_ws_from cur [] = (if cur = [] then [] else [cur])"
| "split_ws_from cur (c # cs) =
     (if is_space c then (if cur = [] then split_ws_from [] cs else cur # split_ws_from [] cs)
      else split_ws_from (cur @ [c]) cs)"

definition split_ws :: "ustr \<Rightarrow> ustr list" where
  "split_ws s = split_ws_from [] s"

text \<open>\<^verbatim>\<open>sep.join(xs)\<close>.\<close>

fun join :: "ustr \<Rightarrow> ustr list \<Rightarrow> ustr" where
  "join sep [] = []"
| "join sep [x] = x"
| "join sep (x # y # ys) = x @ sep @ join sep (y # ys)"

section \<open>Regular expressions\<close>

text \<open>
  The patterns of the source use: literal text, character classes (also negated, and the
  classes \<^verbatim>\<open>\d\<close>, \<^verbatim>\<open>\s\<close>, \<^verbatim>\<open>\S\<close>), the dot, the quantifiers
  \<^verbatim>\<open>* + ? {n} {m,n} *? +?\<close> applied to one character class or to the dot, groups,
  alternation, and the anchors \<^verbatim>\<open>^\<close> and \<^verbatim>\<open>$\<close>. No pattern is compiled with a flag.
  \<open>rx\<close> is that fragment; a quantifier is \<open>Rep a lo hi greedy\<close> (\<open>hi = None\<close>: no bound).
\<close>

datatype cls = CChar nat | CRange nat nat | CDigit | CSpace

datatype atom = Any | In "cls list" | NotIn "cls list"

datatype rx =
    One atom
  | Rep atom nat "nat option" bool
  | Str ustr
  | Seq rx rx
  | Alt rx rx
  | Grp nat rx
  | Bol
  | Eol

fun cls_ok :: "cls \<Rightarrow> nat \<Rightarrow> bool" where
  "cls_ok (CChar x) c = (c = x)"
| "cls_ok (CRange lo hi) c = (lo \<le> c \<and> c \<le> hi)"
| "cls_ok CDigit c = is_digit c"
| "cls_ok CSpace c = is_space c"

text \<open>The dot matches every character but the newline.\<close>

fun atom_ok :: "atom \<Rightarrow> nat \<Rightarrow> bool" where
  "atom_ok Any c = (c \<noteq> 0x0A)"
| "atom_ok (In ks) c = list_ex (\<lambda>k. cls_ok k c) ks"
| "atom_ok (NotIn ks) c = (\<not> list_ex (\<lambda>k. cls_ok k c) ks)"

abbreviation digit :: atom where "digit \<equiv> In [CDigit]"
abbreviation space :: atom where "space \<equiv> In [CSpace]"
abbreviation nonspace :: atom where "nonspace \<equiv> NotIn [CSpace]"
abbreviation star :: "atom \<Rightarrow> rx" where "star a \<equiv> Rep a 0 None True"
abbreviation plus :: "atom \<Rightarrow> rx" where "plus a \<equiv> Rep a 1 None True"
abbreviation lazy_star :: "atom \<Rightarrow> rx" where "lazy_star a \<equiv> Rep a 0 None False"
abbreviation lazy_plus :: "atom \<Rightarrow> rx" where "lazy_plus a \<equiv> Rep a 1 None False"
abbreviation opt :: "atom \<Rightarrow> rx" where "opt a \<equiv> Rep a 0 (Some 1) True"
abbreviation times :: "atom \<Rightarrow> nat \<Rightarrow> rx" where "times a n \<equiv> Rep a n (Some n) True"

fun seqs :: "rx list \<Rightarrow> rx" where
  "seqs [] = Str []"
| "seqs [r] = r"
| "seqs (r # rs) = Seq r (seqs rs)"

text \<open>
  A matcher state is the position in the subject, the rest of the subject from there, and
  the groups captured so far (the latest first). \<open>rx_run r st\<close> lists the states in which
  a match of \<open>r\<close> begun in \<open>st\<close> can end, in the order in which the backtracking matcher
  of \<^verbatim>\<open>re\<close> tries them: a greedy quantifier the longest run first, a lazy one the
  shortest first, an alternation its left branch first. \<^verbatim>\<open>$\<close> matches at the end of the
  subject and before a newline that ends it.
\<close>

type_synonym mstate = "nat \<times> ustr \<times> (nat \<times> ustr) list"

fun rx_run :: "rx \<Rightarrow> mstate \<Rightarrow> mstate list" where
  "rx_run (One a) (p, s, g) =
     (case s of [] \<Rightarrow> [] | c # cs \<Rightarrow> if atom_ok a c then [(Suc p, cs, g)] else [])"
| "rx_run (Rep a lo hi greedy) (p, s, g) =
     (let m = length (takeWhile (atom_ok a) s);
          m' = (case hi of None \<Rightarrow> m | Some h \<Rightarrow> min h m);
          ns = (if greedy then rev [lo..<Suc m'] else [lo..<Suc m'])
      in map (\<lambda>n. (p + n, drop n s, g)) ns)"
| "rx_run (Str w) (p, s, g) =
     (if starts_with w s then [(p + length w, drop (length w) s, g)] else [])"
| "rx_run (Seq a b) st = concat (map (rx_run b) (rx_run a st))"
| "rx_run (Alt a b) st = rx_run a st @ rx_run b st"
| "rx_run (Grp n r) (p, s, g) =
     map (\<lambda>(p', s', g'). (p', s', (n, take (p' - p) s) # g')) (rx_run r (p, s, g))"
| "rx_run Bol (p, s, g) = (if p = 0 then [(p, s, g)] else [])"
| "rx_run Eol (p, s, g) = (if s = [] \<or> s = [0x0A] then [(p, s, g)] else [])"

text \<open>
  A match object: where the match starts and ends, and its groups; group 0 is the whole
  match. Every group of every pattern of the source takes part in each match of its
  pattern, so no group is ever \<^verbatim>\<open>None\<close> when it is read.
\<close>

type_synonym rmatch = "nat \<times> nat \<times> (nat \<times> ustr) list"

fun m_start :: "rmatch \<Rightarrow> nat" where "m_start (b, e, g) = b"
fun m_end :: "rmatch \<Rightarrow> nat" where "m_end (b, e, g) = e"

fun group :: "rmatch \<Rightarrow> nat \<Rightarrow> ustr" where
  "group (b, e, g) n = (case map_of g n of Some w \<Rightarrow> w | None \<Rightarrow> [])"

text \<open>\<^verbatim>\<open>pattern.match\<close> at position \<open>p\<close> of a subject whose rest from there is \<open>s\<close>.\<close>

definition match_at :: "rx \<Rightarrow> nat \<Rightarrow> ustr \<Rightarrow> rmatch option" where
  "match_at r p s =
     (case rx_run r (p, s, []) of
        [] \<Rightarrow> None
      | (e, s', g) # _ \<Rightarrow> Some (p, e, (0, take (e - p) s) # g))"

text \<open>The leftmost match that starts at \<open>p\<close> or later.\<close>

fun search_from :: "rx \<Rightarrow> nat \<Rightarrow> ustr \<Rightarrow> rmatch option" where
  "search_from r p [] = match_at r p []"
| "search_from r p (c # cs) =
     (case match_at r p (c # cs) of Some m \<Rightarrow> Some m | None \<Rightarrow> search_from r (Suc p) cs)"

definition re_search :: "rx \<Rightarrow> ustr \<Rightarrow> rmatch option" where
  "re_search r s = search_from r 0 s"

definition re_match :: "rx \<Rightarrow> ustr \<Rightarrow> rmatch option" where
  "re_match r s = match_at r 0 s"

abbreviation found :: "rx \<Rightarrow> ustr \<Rightarrow> bool" where
  "found r s \<equiv> re_search r s \<noteq> None"

abbreviation matches :: "rx \<Rightarrow> ustr \<Rightarrow> bool" where
  "matches r s \<equiv> re_match r s \<noteq> None"

section \<open>The training-section filter\<close>

text \<open>
  \<^verbatim>\<open>filter_training_section\<close> (source lines 45 to 114). The heading literal of line 52
  is U+8ABF U+6559 U+30BF U+30A4 U+30E0; the pattern of line 58 is the column header of the
  training table.
\<close>

definition training_heading :: ustr where
  "training_heading = [0x8ABF, 0x6559, 0x30BF, 0x30A4, 0x30E0]"

definition training_table_header :: rx where
  "training_table_header = seqs [Str [0x67A0], plus space, Str [0x99AC], star space, Str [0x756A],
     star Any, Str [0x99AC, 0x540D], star Any, Str [0x65E5, 0x4ED8], star Any, Str [0x30B3, 0x30FC, 0x30B9], star Any,
     Str [0x99AC, 0x5834], star Any, Str [0x4E57, 0x308A, 0x5F79]]"

text \<open>The twelve patterns of lines 65 to 78, in the order of the source.\<close>

definition training_patterns :: "rx list" where
  "training_patterns =
    [seqs [Str [0x524D, 0x8D70], star Any, times digit 4, Str (u ''/''), times digit 2, Str (u ''/''),
           times digit 2, star Any, Str [0x7F8E], One (In [CChar 0x5742, CChar 0xFF37])],
     seqs [Str [0x7F8E], One (In [CChar 0x5742, CChar 0xFF37]), star Any, Str [0x826F], star Any,
           One (In [CChar 0x52A9, CChar 0x624B, CChar 0x9A0E, CChar 0x624B, CChar 0x6749,
                    CChar 0x539F, CChar 0x5185, CChar 0x7530])],
     seqs [Bol, plus digit, Str (u ''.''), plus digit, Eol],
     seqs [Bol, Str (u ''(''), plus digit, Str (u ''.''), plus digit, Str (u '')''), Eol],
     seqs [Str [0x5916], star Any, Str [0x5F37, 0x3081], star Any, Str [0x4F75, 0x305B], star Any, Str [0x79D2],
           star Any, Str [0x5148, 0x7740]],
     seqs [Bol, plus digit, plus space, One (In [CChar 0xFF27, CChar 0xFF22, CChar 0xFF23]),
           Str [0x5F37], plus space, Str [0x52D5, 0x304D], star Any,
           One (In [CChar 0xFF22, CChar 0xFF23]), Eol],
     Str [0x63D0, 0x4F9B, 0xFF1A, 0x30C7, 0x30A4, 0x30EA, 0x30FC, 0x30B9, 0x30DD, 0x30FC, 0x30C4],
     Str [0x3059, 0x3079, 0x3066, 0x306E, 0x6700, 0x7D42, 0x8ABF, 0x6559, 0x3092, 0x898B, 0x308B],
     seqs [Bol, Str (u ''-''), Eol],
     Str [0x30E9, 0x30C3, 0x30D7, 0x8868, 0x793A],
     seqs [Str [0x4F4D, 0x7F6E], plus space, Str [0x811A, 0x8272], plus space, Str [0x8A55, 0x4FA1]],
     Alt (Str [0x307E, 0x305A, 0x307E, 0x305A]) (Str [0x52D5, 0x304D, 0x4E0A, 0x3005])]"

text \<open>The keywords of lines 91 to 95 (page furniture) and of line 105 (the race resumes).\<close>

definition section_end_keywords :: "ustr list" where
  "section_end_keywords =
    [[0x3044, 0x307E, 0x7AF6, 0x8F2A, 0x304C, 0x71B1, 0x3044], (u ''netkeiba''), [0x5229, 0x7528, 0x8005, 0x6570], [0x30AB, 0x30C6, 0x30B4, 0x30EA],
     [0x30CB, 0x30E5, 0x30FC, 0x30B9], [0x30EC, 0x30FC, 0x30B9], [0x304A, 0x6C17, 0x306B, 0x5165, 0x308A, 0x99AC], [0x691C, 0x7D22, 0x30D0, 0x30FC],
     [0x307F, 0x3093, 0x306A, 0x3067, 0x4E00, 0x7DD2, 0x306B, 0x7AF6, 0x99AC], (u ''URL''), [0xA9, 0x20, 0x4E, 0x45, 0x54, 0x20, 0x44, 0x52, 0x45, 0x41, 0x4D, 0x45, 0x52, 0x53]]"

definition race_resume_keywords :: "ustr list" where
  "race_resume_keywords = [[0x767A, 0x8D70], (u ''R''), [0x6B73, 0x4EE5, 0x4E0A], [0x30AF, 0x30E9, 0x30B9]]"

text \<open>The frame and horse number header: two runs of digits alone on a line (line 101).\<close>

definition frame_horse_header :: rx where
  "frame_horse_header = seqs [Bol, plus digit, plus space, plus digit, star space, Eol]"

text \<open>
  The loop of lines 50 to 112: \<open>skip\<close> is \<^verbatim>\<open>skip_training_data\<close>, \<open>filtered\<close> is
  \<^verbatim>\<open>filtered_lines\<close>. Each \<^verbatim>\<open>continue\<close> is a recursive call on the rest of the lines.
\<close>

fun filter_loop :: "bool \<Rightarrow> ustr list \<Rightarrow> ustr list \<Rightarrow> ustr list" where
  "filter_loop skip [] filtered = filtered"
| "filter_loop skip (line # rest) filtered =
     (if contains training_heading line then filter_loop True rest filtered
      else if skip \<or> found training_table_header line then filter_loop True rest filtered
      else if skip then
        (if list_ex (\<lambda>pattern. found pattern line) training_patterns
           then filter_loop skip rest filtered
         else if list_ex (\<lambda>keyword. contains keyword line) section_end_keywords
           then filter_loop False rest filtered
         else if matches frame_horse_header line
           then filter_loop False rest (filtered @ [line])
         else if list_ex (\<lambda>keyword. contains keyword line) race_resume_keywords
           then filter_loop False rest (filtered @ [line])
         else filter_loop skip rest filtered)
      else filter_loop skip rest (filtered @ [line]))"

definition filter_training_section :: "ustr list \<Rightarrow> ustr list" where
  "filter_training_section lines = filter_loop False lines []"

text \<open>
  A line that starts a training section: it holds the heading, or it is the column header
  of the training table (the tests of lines 52 and 58).
\<close>

definition starts_training :: "ustr \<Rightarrow> bool" where
  "starts_training line = (contains training_heading line \<or> found training_table_header line)"

section \<open>The race-info extractor\<close>

text \<open>
  The dictionary built on lines 118 to 132 has a fixed set of keys, so it is a record; the
  fields carry the prefix \<open>ri_\<close>.
\<close>

record race_info =
  ri_race_number :: ustr
  ri_race_name :: ustr
  ri_date :: ustr
  ri_time :: ustr
  ri_venue :: ustr
  ri_course_type :: ustr
  ri_distance :: ustr
  ri_direction :: ustr
  ri_weather :: ustr
  ri_track_condition :: ustr
  ri_grade :: ustr
  ri_prize_money :: ustr
  ri_entry_count :: ustr

definition empty_race_info :: race_info where
  "empty_race_info = \<lparr>ri_race_number = [], ri_race_name = [], ri_date = [], ri_time = [],
     ri_venue = [], ri_course_type = [], ri_distance = [], ri_direction = [], ri_weather = [],
     ri_track_condition = [], ri_grade = [], ri_prize_money = [], ri_entry_count = []\<rparr>"

text \<open>Line 136: digits followed by R, the whole of the stripped line.\<close>

definition race_number_rx :: rx where
  "race_number_rx = seqs [Bol, plus digit, Str (u ''R''), Eol]"

text \<open>Lines 143 to 148.\<close>

definition site_terms :: "ustr list" where
  "site_terms =
    [(u ''netkeiba''), (u ''netkeibaTV''), [0x99AC, 0x540D, 0x3067, 0x691C, 0x7D22], [0x304A, 0x6C17, 0x306B, 0x5165, 0x308A, 0x99AC], [0x30E1, 0x30E2], [0x30A2, 0x30AB, 0x30A6, 0x30F3, 0x30C8],
     [0x4C, 0x49, 0x56, 0x45, 0x7AF6, 0x8F2A], [0x30C8, 0x30C3, 0x30D7], [0x30CB, 0x30E5, 0x30FC, 0x30B9], [0x30EC, 0x30FC, 0x30B9], (u ''A I''), [0x4E88, 0x60F3], [0x55, 0x4D, 0x41, 0x49, 0x30D3, 0x30EB, 0x30C0, 0x30FC],
     [0x30B3, 0x30E9, 0x30E0], [0x5730, 0x65B9, 0x7AF6, 0x99AC], [0x30C7, 0x30FC, 0x30BF, 0x30D9, 0x30FC, 0x30B9], [0x30B7, 0x30E7, 0x30C3, 0x30D7], [0x7AF6, 0x99AC, 0x65B0, 0x805E], [0x4FFA, 0x30D7, 0x30ED],
     [0x4E00, 0x53E3, 0x99AC, 0x4E3B], (u ''POG''), [0x307E, 0x3068, 0x3081], [0x524D], [0x6B21], [0x798F, 0x5CF6], [0x5C0F, 0x5009], [0x51FD, 0x9928]]"

text \<open>The patterns of lines 154 to 157 and of line 161.\<close>

definition grade_letter_end_rx :: rx where
  "grade_letter_end_rx = seqs [One (In [CChar 0x47, CChar 0x53, CChar 0x4C]), Eol]"

definition cup_memorial_rx :: rx where
  "cup_memorial_rx = One (In [CChar 0x676F, CChar 0x8A18, CChar 0x5FF5])"

definition prize_rx :: rx where
  "prize_rx = Alt (Str [0x672C, 0x8CDE, 0x91D1]) (Str [0x8CDE, 0x91D1])"

definition not_a_name_rx :: rx where
  "not_a_name_rx =
     Alt (One (In [CRange 0x30 0x39, CChar 0x3A]))
    (Alt (Str [0x767A, 0x8D70]) (Alt (Str [0x5929, 0x5019]) (Alt (Str [0x99AC, 0x5834]) (Alt (Str [0x56DE])
    (Alt (Str [0x65E5, 0x76EE]) (Alt (Str [0x982D]) (Alt (Str [0x4E07, 0x5186]) (Alt (Str (u ''takashi''))
         (Str [0x3055, 0x3093])))))))))"

definition age_class_rx :: rx where
  "age_class_rx = seqs [One (In [CRange 0x33 0x39]), Str [0x6B73, 0x4EE5, 0x4E0A], star Any, Str [0x30AF, 0x30E9, 0x30B9]]"

text \<open>The test of lines 154 to 157: the line is taken as the name of a special race.\<close>

definition special_race_name :: "ustr \<Rightarrow> bool" where
  "special_race_name line =
     (found grade_letter_end_rx (strip line) \<or>
      (found cup_memorial_rx line \<and> \<not> found prize_rx line) \<or>
      (length (strip line) \<le> 10 \<and> \<not> found not_a_name_rx line))"

text \<open>The patterns of lines 167 to 198.\<close>

definition post_time_rx :: rx where
  "post_time_rx = seqs [Grp 1 (seqs [Rep digit 1 (Some 2) True, Str (u '':''), times digit 2]),
     Str [0x767A, 0x8D70]]"

definition distance_rx :: rx where
  "distance_rx = seqs [Grp 1 (One (In [CChar 0x30C0, CChar 0x829D])), Grp 2 (plus digit),
     Str (u ''m'')]"

definition direction_rx :: rx where
  "direction_rx = seqs [Str (u ''(''), Grp 1 (One (In [CChar 0x53F3, CChar 0x5DE6]))]"

definition weather_rx :: rx where
  "weather_rx = seqs [Str [0x5929, 0x5019, 0x3A], Grp 1 (plus (NotIn [CChar 0x2F]))]"

definition condition_rx :: rx where
  "condition_rx = seqs [Str [0x99AC, 0x5834, 0x3A], Grp 1 (plus nonspace)]"

definition meeting_rx :: rx where
  "meeting_rx = seqs [plus digit, Str [0x56DE], star Any, plus digit, Str [0x65E5, 0x76EE]]"

definition entry_end_rx :: rx where
  "entry_end_rx = seqs [plus space, Grp 1 (plus digit), Str [0x982D], Eol]"

definition entry_rx :: rx where
  "entry_rx = seqs [Grp 1 (plus digit), Str [0x982D]]"

text \<open>
  Lines 164 to 204, the part of the loop body after the race name: the composite line
  with the post time, the meeting, the number of entries, the prize money.
\<close>

definition composite_fields :: "race_info \<Rightarrow> ustr \<Rightarrow> race_info" where
  "composite_fields ri line =
     (let ri = (case re_search post_time_rx line of
                  Some m \<Rightarrow> ri\<lparr>ri_time := group m 1\<rparr> | None \<Rightarrow> ri);
          ri = (case re_search distance_rx line of
                  Some m \<Rightarrow> ri\<lparr>ri_course_type := group m 1, ri_distance := group m 2 @ u ''m''\<rparr>
                | None \<Rightarrow> ri);
          ri = (case re_search direction_rx line of
                  Some m \<Rightarrow> ri\<lparr>ri_direction := group m 1\<rparr> | None \<Rightarrow> ri);
          ri = (case re_search weather_rx line of
                  Some m \<Rightarrow> ri\<lparr>ri_weather := strip (group m 1)\<rparr> | None \<Rightarrow> ri)
      in (case re_search condition_rx line of
            Some m \<Rightarrow> ri\<lparr>ri_track_condition := strip (group m 1)\<rparr> | None \<Rightarrow> ri))"

definition other_fields :: "race_info \<Rightarrow> ustr \<Rightarrow> race_info" where
  "other_fields ri line =
     (let ri = (if contains [0x767A, 0x8D70] line \<and> contains (u ''m'') line
                then composite_fields ri line else ri);
          ri = (if found meeting_rx line then ri\<lparr>ri_venue := strip line\<rparr> else ri);
          ri = (if found entry_end_rx line
                then (case re_search entry_rx line of
                        Some m \<Rightarrow> ri\<lparr>ri_entry_count := group m 1 @ [0x982D]\<rparr> | None \<Rightarrow> ri)
                else ri)
      in if contains [0x672C, 0x8CDE, 0x91D1, 0x3A] line then ri\<lparr>ri_prize_money := strip line\<rparr> else ri)"

text \<open>
  One turn of the loop of lines 134 to 204. The \<^verbatim>\<open>continue\<close> of line 151 ends the
  turn after the race number only. The \<^verbatim>\<open>elif\<close> of line 161 belongs to the
  \<^verbatim>\<open>if\<close> of line 141.
\<close>

definition race_info_step :: "race_info \<Rightarrow> ustr \<Rightarrow> race_info" where
  "race_info_step ri0 line =
     (let ri = (if found race_number_rx (strip line)
                then ri0\<lparr>ri_race_number := strip line\<rparr> else ri0)
      in if ri_race_name ri = [] then
           (if strip line \<in> set site_terms then ri
            else other_fields
                   (if special_race_name line then ri\<lparr>ri_race_name := strip line\<rparr> else ri)
                   line)
         else if ri_race_name ri = [] \<and> found age_class_rx line
           then other_fields (ri\<lparr>ri_race_name := strip line\<rparr>) line
         else other_fields ri line)"

definition extract_race_info :: "ustr list \<Rightarrow> race_info" where
  "extract_race_info lines = foldl race_info_step empty_race_info lines"

text \<open>A line whose stripped text is a race number (the test of line 136).\<close>

definition is_race_number :: "ustr \<Rightarrow> bool" where
  "is_race_number line = found race_number_rx (strip line)"

section \<open>Floats and their one-decimal rendering\<close>

text \<open>
  Lines 503 to 505 convert the text of a time difference with \<^verbatim>\<open>float\<close> and render it
  with the format \<^verbatim>\<open>.1f\<close>. The text is group 2 of the pattern of line 480, so it is made
  of the characters \<^verbatim>\<open>0\<close> to \<^verbatim>\<open>9\<close>, the full stop and the hyphen. On such a text
  \<^verbatim>\<open>float\<close> accepts an optional leading hyphen followed by digits with at most one full
  stop and at least one digit, and raises \<^verbatim>\<open>ValueError\<close> otherwise. An accepted text
  denotes a decimal fraction \<open>n / 10 ^ k\<close>; \<^verbatim>\<open>float\<close> returns the binary64 number nearest
  to it (ties to the even significand), which is infinite from \<open>2 ^ 1024\<close> on, and
  \<^verbatim>\<open>.1f\<close> prints the multiple of one tenth nearest to that binary64 number (ties to
  even), with the sign.
\<close>

datatype pyfloat = Finite bool nat int | Infinite bool

text \<open>\<open>Finite neg m x\<close> is the number \<open>m * 2 ^ x\<close>, negated when \<open>neg\<close>.\<close>

definition ascii_digit :: "nat \<Rightarrow> bool" where
  "ascii_digit c = (0x30 \<le> c \<and> c \<le> 0x39)"

definition nat_of_digits :: "ustr \<Rightarrow> nat" where
  "nat_of_digits ds = foldl (\<lambda>a c. 10 * a + (c - 0x30)) 0 ds"

text \<open>Division rounded to the nearest integer, ties to the even one.\<close>

definition div_half_even :: "nat \<Rightarrow> nat \<Rightarrow> nat" where
  "div_half_even n d =
     (let q = n div d; r = n mod d
      in if 2 * r < d then q else if d < 2 * r then Suc q else if even q then q else Suc q)"

fun bit_length :: "nat \<Rightarrow> nat" where
  "bit_length n = (if n = 0 then 0 else Suc (bit_length (n div 2)))"

declare bit_length.simps [simp del]

text \<open>The integer part of the binary logarithm of \<open>n / d\<close>, for positive \<open>n\<close> and \<open>d\<close>.\<close>

definition ilog2 :: "nat \<Rightarrow> nat \<Rightarrow> int" where
  "ilog2 n d =
     (let b = int (bit_length n) - int (bit_length d)
      in if (if 0 \<le> b then d * 2 ^ nat b \<le> n else d \<le> n * 2 ^ nat (- b)) then b else b - 1)"

text \<open>The binary64 number nearest to \<open>n / d\<close>: 53 bits of significand, exponents of the
  unit in the last place from \<open>-1074\<close> to \<open>971\<close>.\<close>

definition to_binary64 :: "bool \<Rightarrow> nat \<Rightarrow> nat \<Rightarrow> pyfloat" where
  "to_binary64 neg n d =
     (if n = 0 then Finite neg 0 0
      else
        (let x = max (ilog2 n d - 52) (- 1074);
             m = div_half_even (n * 2 ^ nat (- x)) (d * 2 ^ nat x)
         in if 971 < x \<or> (x = 971 \<and> 2 ^ 53 \<le> m) then Infinite neg else Finite neg m x))"

text \<open>\<^verbatim>\<open>float(s)\<close>; \<open>None\<close> is \<^verbatim>\<open>ValueError\<close>.\<close>

definition py_float :: "ustr \<Rightarrow> pyfloat option" where
  "py_float s =
     (let neg = (case s of [] \<Rightarrow> False | c # cs \<Rightarrow> c = 0x2D);
          body = (if neg then tl s else s);
          ip = takeWhile ascii_digit body;
          r = dropWhile ascii_digit body
      in (case r of
            [] \<Rightarrow> if ip = [] then None else Some (to_binary64 neg (nat_of_digits ip) 1)
          | c # fp \<Rightarrow>
              if c = 0x2E \<and> list_all ascii_digit fp \<and> (ip \<noteq> [] \<or> fp \<noteq> [])
              then Some (to_binary64 neg (nat_of_digits (ip @ fp)) (10 ^ length fp))
              else None))"

fun nat_digits :: "nat \<Rightarrow> ustr" where
  "nat_digits n = (if n < 10 then [0x30 + n] else nat_digits (n div 10) @ [0x30 + n mod 10])"

declare nat_digits.simps [simp del]

text \<open>The format \<^verbatim>\<open>.1f\<close>.\<close>

fun format_1f :: "pyfloat \<Rightarrow> ustr" where
  "format_1f (Infinite neg) = (if neg then u ''-inf'' else u ''inf'')"
| "format_1f (Finite neg m x) =
     (let t = div_half_even (10 * m * 2 ^ nat x) (2 ^ nat (- x))
      in (if neg then u ''-'' else []) @ nat_digits (t div 10) @ u ''.'' @ nat_digits (t mod 10))"

section \<open>The past-race parser\<close>

text \<open>
  \<^verbatim>\<open>parse_past_race\<close> (source lines 347 to 513). The dictionary of lines 353 to 368 is a
  record with the prefix \<open>pr_\<close>.
\<close>

record race_result =
  pr_date :: ustr
  pr_venue :: ustr
  pr_race_name :: ustr
  pr_course_info :: ustr
  pr_finish_position :: ustr
  pr_passage_position :: ustr
  pr_field_size :: ustr
  pr_popularity :: ustr
  pr_jockey :: ustr
  pr_weight :: ustr
  pr_time :: ustr
  pr_track_condition :: ustr
  pr_winner_name :: ustr
  pr_time_diff :: ustr

definition empty_race_result :: race_result where
  "empty_race_result = \<lparr>pr_date = [], pr_venue = [], pr_race_name = [], pr_course_info = [],
     pr_finish_position = [], pr_passage_position = [], pr_field_size = [], pr_popularity = [],
     pr_jockey = [], pr_weight = [], pr_time = [], pr_track_condition = [],
     pr_winner_name = [], pr_time_diff = []\<rparr>"

definition jra_venues :: "ustr list" where
  "jra_venues = [[0x6771, 0x4EAC], [0x4E2D, 0x5C71], [0x962A, 0x795E], [0x4EAC, 0x90FD], [0x65B0, 0x6F5F], [0x798F, 0x5CF6], [0x5C0F, 0x5009], [0x672D, 0x5E4C],
     [0x51FD, 0x9928], [0x4E2D, 0x4EAC]]"

definition local_venues :: "ustr list" where
  "local_venues = [[0x4F50, 0x8CC0], [0x7B20, 0x677E], [0x5712, 0x7530], [0x59EB, 0x8DEF], [0x9AD8, 0x77E5], [0x91D1, 0x6CA2], [0x6D66, 0x548C], [0x8239, 0x6A4B],
     [0x5927, 0x4E95], [0x5DDD, 0x5D0E], [0x76DB, 0x5CA1], [0x6C34, 0x6CA2], [0x9580, 0x5225]]"

definition all_venues :: "ustr list" where
  "all_venues = jra_venues @ local_venues"

text \<open>The patterns of lines 371 to 457, in the order of the source.\<close>

definition past_date_rx :: rx where
  "past_date_rx = seqs [Grp 1 (times digit 4), Str (u ''.''), Grp 2 (times digit 2), Str (u ''.''),
     Grp 3 (times digit 2)]"

definition past_venue_rx :: rx where
  "past_venue_rx = seqs [times digit 4, Str (u ''.''), times digit 2, Str (u ''.''), times digit 2,
     plus space, Grp 1 (lazy_plus Any), Grp 2 (plus digit)]"

definition course_rx :: rx where
  "course_rx = seqs [Grp 1 (One (In [CChar 0x30C0, CChar 0x829D])), Grp 2 (plus digit)]"

definition duration_rx :: rx where
  "duration_rx = Grp 1 (seqs [plus digit, Str (u '':''), plus digit, Str (u ''.''), plus digit])"

definition track_condition_rx :: rx where
  "track_condition_rx = Grp 1 (Alt (Str [0x826F]) (Alt (Str [0x7A0D, 0x91CD]) (Alt (Str [0x91CD]) (Str [0x4E0D, 0x826F]))))"

definition basic_info_rx :: rx where
  "basic_info_rx = seqs [Grp 1 (plus digit), Str [0x982D], plus space, Grp 2 (plus digit), Str [0x756A],
     plus space, Grp 3 (plus digit), Str [0x4EBA]]"

definition venue_finish_rx :: "ustr \<Rightarrow> rx" where
  "venue_finish_rx venue = seqs [Str venue, Grp 1 (plus digit)]"

definition detailed_passage_rx :: rx where
  "detailed_passage_rx = seqs [Grp 1 (plus digit), Str (u ''-''), Grp 2 (plus digit), Str (u ''-''),
     Grp 3 (plus digit), Str (u ''-''), Grp 4 (plus digit)]"

definition simple_passage_rx :: rx where
  "simple_passage_rx = seqs [Grp 1 (plus digit), Str (u ''-''), Grp 2 (plus digit)]"

definition alt_finish_rx :: rx where
  "alt_finish_rx = seqs [Grp 1 (plus digit), Str [0x7740], lazy_star Any, Grp 2 (plus digit), Str [0x982D],
     lazy_star Any, Grp 3 (plus digit), Str [0x756A]]"

definition popularity_rx :: rx where
  "popularity_rx = seqs [Grp 1 (plus digit), Str [0x756A, 0x4EBA, 0x6C17]]"

text \<open>Lines 386 to 402: the venue, by equality, then by inclusion, then anywhere in the
  race line. Each loop stops at the first venue of the list that passes its test.\<close>

definition venue_fields :: "race_result \<Rightarrow> ustr \<Rightarrow> race_result" where
  "venue_fields r0 race_line =
     (let r = (case re_search past_venue_rx race_line of
                 None \<Rightarrow> r0
               | Some m \<Rightarrow>
                   (let venue_name = strip (group m 1);
                        r = (case find (\<lambda>venue. venue = venue_name) all_venues of
                               Some venue \<Rightarrow> r0\<lparr>pr_venue := venue\<rparr> | None \<Rightarrow> r0)
                    in if pr_venue r = []
                       then (case find (\<lambda>venue. contains venue venue_name) all_venues of
                               Some venue \<Rightarrow> r\<lparr>pr_venue := venue\<rparr> | None \<Rightarrow> r)
                       else r))
      in if pr_venue r = []
         then (case find (\<lambda>venue. contains venue race_line) all_venues of
                 Some venue \<Rightarrow> r\<lparr>pr_venue := venue\<rparr> | None \<Rightarrow> r)
         else r)"

text \<open>Lines 431 to 436: the finishing position written after a venue name.\<close>

fun venue_finish :: "ustr list \<Rightarrow> ustr \<Rightarrow> ustr option" where
  "venue_finish [] race_line = None"
| "venue_finish (venue # venues) race_line =
     (case re_search (venue_finish_rx venue) race_line of
        Some m \<Rightarrow> Some (group m 1 @ [0x7740])
      | None \<Rightarrow> venue_finish venues race_line)"

text \<open>Lines 462 to 474: the tests on a context line for the race name.\<close>

definition upper_only_rx :: rx where
  "upper_only_rx = seqs [Bol, plus (In [CRange 0x41 0x5A]), Eol]"

definition class_code_rx :: rx where
  "class_code_rx = seqs [Bol, Str (u ''C''), One digit]"

definition names_race :: "ustr \<Rightarrow> bool" where
  "names_race line =
     ((contains [0x30AF, 0x30E9, 0x30B9] line \<or> contains [0x672A, 0x52DD, 0x5229] line \<or> contains [0x7279, 0x5225] line \<or>
       contains (u ''S'') line \<or>
       (contains (u ''G'') line \<and>
        (contains (u ''I'') line \<or> contains (u ''II'') line \<or> contains (u ''III'') line))) \<or>
      (found upper_only_rx line \<or> found class_code_rx line \<or>
       contains [0x676F] line \<or> contains [0x8CDE] line \<or> contains [0x8A18, 0x5FF5] line \<or>
       contains (u ''JRA'') line \<or> contains [0x4EA4, 0x6D41] line))"

text \<open>Lines 477 to 511: the winner and the time difference. The patterns are those of
  lines 480, 489 and 493.\<close>

definition winner_diff_rx :: rx where
  "winner_diff_rx = seqs [Grp 1 (plus (NotIn [CChar 0x28])), Str (u ''(''),
     Grp 2 (plus (In [CRange 0x30 0x39, CChar 0x2E, CChar 0x2D])), Str (u '')'')]"

definition digits_hyphens_rx :: rx where
  "digits_hyphens_rx = seqs [Bol, plus (In [CDigit, CChar 0x2D]), Eol]"

definition name_letter_rx :: rx where
  "name_letter_rx = One (In [CRange 0x3042 0x3093, CRange 0x30A2 0x30F3, CChar 0x30FC,
     CRange 0x4E00 0x9FAF, CRange 0x61 0x7A, CRange 0x41 0x5A])"

definition time_diff_text :: "ustr \<Rightarrow> ustr" where
  "time_diff_text time_diff_str =
     (if time_diff_str = u ''-'' then u ''-''
      else if time_diff_str = u ''0.0'' then u ''0.0''
      else (case py_float time_diff_str of
              Some diff_value \<Rightarrow> format_1f diff_value
            | None \<Rightarrow> time_diff_str))"

text \<open>One turn of the loop of lines 477 to 511: the winner and the time difference the
  line gives, or \<open>None\<close> when the loop goes on to the next line.\<close>

definition winner_of_line :: "ustr \<Rightarrow> (ustr \<times> ustr) option" where
  "winner_of_line line =
     (case re_search winner_diff_rx line of
        None \<Rightarrow> None
      | Some m \<Rightarrow>
          (let winner_name = strip (group m 1); time_diff_str = group m 2
           in if matches digits_hyphens_rx winner_name then None
              else if found name_letter_rx winner_name
                then Some (winner_name, time_diff_text time_diff_str)
              else None))"

text \<open>The loop stops at the first line that gives a winner (\<^verbatim>\<open>break\<close>).\<close>

fun winner_scan :: "ustr list \<Rightarrow> (ustr \<times> ustr) option" where
  "winner_scan [] = None"
| "winner_scan (line # rest) =
     (case winner_of_line line of
        Some winner \<Rightarrow> Some winner
      | None \<Rightarrow> winner_scan rest)"

text \<open>Lines 408 to 427: the course, the time, the going, and the field size with the
  popularity, each from the first match in the joined text.\<close>

definition context_fields :: "race_result \<Rightarrow> ustr \<Rightarrow> race_result" where
  "context_fields r all_text =
     (let r = (case re_search course_rx all_text of
                 Some m \<Rightarrow> r\<lparr>pr_course_info := group m 1 @ group m 2\<rparr> | None \<Rightarrow> r);
          r = (case re_search duration_rx all_text of
                 Some m \<Rightarrow> r\<lparr>pr_time := group m 1\<rparr> | None \<Rightarrow> r);
          r = (case re_search track_condition_rx all_text of
                 Some m \<Rightarrow> r\<lparr>pr_track_condition := group m 1\<rparr> | None \<Rightarrow> r)
      in (case re_search basic_info_rx all_text of
            Some m \<Rightarrow> r\<lparr>pr_field_size := group m 1 @ [0x982D],
                       pr_popularity := group m 3 @ [0x756A, 0x4EBA, 0x6C17]\<rparr>
          | None \<Rightarrow> r))"

text \<open>Lines 431 to 459: the finishing position after a venue name, the passage
  positions, and the other form of the finishing position when the first gave none.\<close>

definition position_fields :: "race_result \<Rightarrow> ustr \<Rightarrow> ustr \<Rightarrow> race_result" where
  "position_fields r race_line all_text =
     (let r = (case venue_finish all_venues race_line of
                 Some p \<Rightarrow> r\<lparr>pr_finish_position := p\<rparr> | None \<Rightarrow> r);
          r = (case re_search detailed_passage_rx all_text of
                 Some m \<Rightarrow> r\<lparr>pr_passage_position := group m 0\<rparr>
               | None \<Rightarrow>
                   (case re_search simple_passage_rx all_text of
                      Some m \<Rightarrow> r\<lparr>pr_passage_position := group m 0\<rparr> | None \<Rightarrow> r))
      in if pr_finish_position r = []
         then (case re_search alt_finish_rx all_text of
                 Some m \<Rightarrow>
                   (let r = r\<lparr>pr_finish_position := group m 1 @ [0x7740],
                               pr_field_size := group m 2 @ [0x982D]\<rparr>
                    in (case re_search popularity_rx all_text of
                          Some pm \<Rightarrow> r\<lparr>pr_popularity := group pm 1 @ [0x756A, 0x4EBA, 0x6C17]\<rparr>
                        | None \<Rightarrow> r))
               | None \<Rightarrow> r)
         else r)"

definition parse_past_race :: "ustr \<Rightarrow> ustr list \<Rightarrow> race_result" where
  "parse_past_race race_line context_lines =
     (let r = empty_race_result;
          r = (case re_search past_date_rx race_line of
                 Some m \<Rightarrow> r\<lparr>pr_date := group m 1 @ u ''/'' @ group m 2 @ u ''/'' @ group m 3\<rparr>
               | None \<Rightarrow> r);
          r = venue_fields r race_line;
          all_text = race_line @ u '' '' @ join (u '' '') context_lines;
          r = context_fields r all_text;
          r = position_fields r race_line all_text;
          r = (case find names_race context_lines of
                 Some line \<Rightarrow> r\<lparr>pr_race_name := strip line\<rparr> | None \<Rightarrow> r)
      in (case winner_scan context_lines of
            Some (winner_name, time_diff) \<Rightarrow>
              r\<lparr>pr_winner_name := winner_name, pr_time_diff := time_diff\<rparr>
          | None \<Rightarrow> r))"

section \<open>The entrant extractor\<close>

text \<open>
  \<^verbatim>\<open>extract_horses_data\<close> (source lines 208 to 345). The dictionary of lines 220 to 239
  is a record with the prefix \<open>h_\<close>.
\<close>

record horse_data =
  h_frame_number :: ustr
  h_horse_number :: ustr
  h_horse_name :: ustr
  h_father :: ustr
  h_mother :: ustr
  h_mother_father :: ustr
  h_trainer :: ustr
  h_jockey :: ustr
  h_weight :: ustr
  h_age :: ustr
  h_sex :: ustr
  h_coat_color :: ustr
  h_odds :: ustr
  h_popularity :: ustr
  h_past_races :: "race_result list"
  h_stable_type :: ustr
  h_recent_form :: ustr
  h_load_weight :: ustr

definition new_horse :: "ustr \<Rightarrow> ustr \<Rightarrow> horse_data" where
  "new_horse frame number = \<lparr>h_frame_number = frame, h_horse_number = number, h_horse_name = [],
     h_father = [], h_mother = [], h_mother_father = [], h_trainer = [], h_jockey = [],
     h_weight = [], h_age = [], h_sex = [], h_coat_color = [], h_odds = [], h_popularity = [],
     h_past_races = [], h_stable_type = [], h_recent_form = [], h_load_weight = []\<rparr>"

text \<open>
  \<^verbatim>\<open>re.sub(pattern, repl, s)\<close> for a replacement without group references: the matches
  are taken from left to right, each search starting where the last match ended. After
  an empty match the next character is copied and the search moves on by one.
\<close>

fun sub_from :: "rx \<Rightarrow> ustr \<Rightarrow> nat \<Rightarrow> ustr \<Rightarrow> ustr" where
  "sub_from r repl p [] = (case match_at r p [] of Some m \<Rightarrow> repl | None \<Rightarrow> [])"
| "sub_from r repl p (c # cs) =
     (case match_at r p (c # cs) of
        None \<Rightarrow> c # sub_from r repl (Suc p) cs
      | Some m \<Rightarrow>
          if m_end m \<le> p then repl @ c # sub_from r repl (Suc p) cs
          else repl @ sub_from r repl (m_end m) (drop (m_end m - Suc p) cs))"

definition re_sub :: "rx \<Rightarrow> ustr \<Rightarrow> ustr \<Rightarrow> ustr" where
  "re_sub r repl s = sub_from r repl 0 s"

text \<open>The patterns of lines 217 to 332, in the order of the source.\<close>

definition frame_horse_rx :: rx where
  "frame_horse_rx = seqs [Bol, Grp 1 (plus digit), plus space, Grp 2 (plus digit), star space, Eol]"

definition blinker_rx :: rx where
  "blinker_rx = seqs [Str (u ''B''), Eol]"

definition parenthesised_rx :: rx where
  "parenthesised_rx = seqs [Str (u ''(''), Grp 1 (plus (NotIn [CChar 0x29])), Str (u '')'')]"

definition stable_rx :: rx where
  "stable_rx = seqs [Grp 1 (Alt (Str [0x7F8E, 0x6D66]) (Str [0x6817, 0x6771])), Str [0x30FB], Grp 2 (plus Any)]"

definition weight_rx :: rx where
  "weight_rx = seqs [Grp 1 (plus digit), Str (u ''kg(''),
     Grp 2 (seqs [opt (In [CChar 0x2B, CChar 0x2D]), plus digit]), Str (u '')'')]"

definition odds_popularity_rx :: rx where
  "odds_popularity_rx = seqs [Grp 1 (seqs [plus digit, Str (u ''.''), plus digit]), plus space,
     Str (u ''(''), Grp 2 (plus digit), Str [0x4EBA, 0x6C17], Str (u '')'')]"

definition age_sex_color_rx :: rx where
  "age_sex_color_rx = seqs [Bol, Grp 1 (One (In [CChar 0x7261, CChar 0x725D, CChar 0x30BB])),
     Grp 2 (plus digit), Grp 3 (plus Any), Eol]"

definition bare_decimal_rx :: rx where
  "bare_decimal_rx = seqs [Bol, Grp 1 (seqs [plus digit, Str (u ''.''), plus digit]), Eol]"

definition dotted_date_rx :: rx where
  "dotted_date_rx = seqs [times digit 4, Str (u ''.''), times digit 2, Str (u ''.''), times digit 2]"

text \<open>A line that opens an entrant's block (the tests of lines 217 and 285).\<close>

definition is_header :: "ustr \<Rightarrow> bool" where
  "is_header line = matches frame_horse_rx (strip line)"

text \<open>
  Lines 242 to 277: the lines after the header are read by position. The four steps of
  lines 245 to 268 have one shape: when line \<open>j\<close> exists and its stripped text is not
  empty, a field is assigned from the stripped text and \<open>j\<close> moves on by one; otherwise
  nothing changes. \<open>take_line\<close> is that step, with the assignment as a parameter.
\<close>

definition take_line ::
  "ustr list \<Rightarrow> (ustr \<Rightarrow> horse_data \<Rightarrow> horse_data) \<Rightarrow> nat \<times> horse_data \<Rightarrow> nat \<times> horse_data" where
  "take_line lines assign jh =
     (if fst jh < length lines \<and> strip (lines ! fst jh) \<noteq> []
      then (Suc (fst jh), assign (strip (lines ! fst jh)) (snd jh)) else jh)"

text \<open>Lines 271 to 277: the stable line is taken when it names a training centre.\<close>

definition stable_line :: "ustr list \<Rightarrow> nat \<times> horse_data \<Rightarrow> nat \<times> horse_data" where
  "stable_line lines jh =
     (if fst jh < length lines \<and>
         (contains [0x7F8E, 0x6D66] (lines ! fst jh) \<or> contains [0x6817, 0x6771] (lines ! fst jh))
      then (Suc (fst jh),
            (case re_search stable_rx (strip (lines ! fst jh)) of
               Some m \<Rightarrow> (snd jh)\<lparr>h_stable_type := group m 1, h_trainer := strip (group m 2)\<rparr>
             | None \<Rightarrow> snd jh))
      else jh)"

definition positional_fields :: "ustr list \<Rightarrow> nat \<Rightarrow> horse_data \<Rightarrow> nat \<times> horse_data" where
  "positional_fields lines j h =
     (let jh = take_line lines (\<lambda>text h. h\<lparr>h_father := text\<rparr>) (j, h);
          jh = take_line lines (\<lambda>text h. h\<lparr>h_horse_name := re_sub blinker_rx [] text\<rparr>) jh;
          jh = take_line lines (\<lambda>text h. h\<lparr>h_mother := text\<rparr>) jh;
          jh = take_line lines
                 (\<lambda>text h. (case re_search parenthesised_rx text of
                               Some m \<Rightarrow> h\<lparr>h_mother_father := group m 1\<rparr> | None \<Rightarrow> h)) jh
      in stable_line lines jh)"

text \<open>
  Lines 292 to 329: the four rules of the inner loop. A rule applies when its pattern is
  found in the line and its field is still empty; it then returns the entrant with the
  field set, and the turn ends (\<^verbatim>\<open>continue\<close>).
\<close>

definition weight_rule :: "ustr \<Rightarrow> horse_data \<Rightarrow> horse_data option" where
  "weight_rule current_line h =
     (case re_search weight_rx current_line of
        Some m \<Rightarrow>
          if h_weight h = []
          then Some (h\<lparr>h_weight := group m 1 @ u ''kg('' @ group m 2 @ u '')''\<rparr>) else None
      | None \<Rightarrow> None)"

definition odds_rule :: "ustr \<Rightarrow> horse_data \<Rightarrow> horse_data option" where
  "odds_rule current_line h =
     (case re_search odds_popularity_rx current_line of
        Some m \<Rightarrow>
          if h_odds h = []
          then Some (h\<lparr>h_odds := group m 1, h_popularity := group m 2 @ [0x756A, 0x4EBA, 0x6C17]\<rparr>) else None
      | None \<Rightarrow> None)"

text \<open>Lines 314 to 319: the line after the age line is the jockey when the line after
  that is a bare decimal.\<close>

definition jockey_lookahead :: "ustr list \<Rightarrow> nat \<Rightarrow> horse_data \<Rightarrow> horse_data" where
  "jockey_lookahead lines k h =
     (if Suc k < length lines \<and> strip (lines ! Suc k) \<noteq> [] \<and>
         Suc (Suc k) < length lines \<and> found bare_decimal_rx (strip (lines ! Suc (Suc k)))
      then h\<lparr>h_jockey := strip (lines ! Suc k)\<rparr> else h)"

definition age_rule :: "ustr list \<Rightarrow> nat \<Rightarrow> ustr \<Rightarrow> horse_data \<Rightarrow> horse_data option" where
  "age_rule lines k current_line h =
     (case re_search age_sex_color_rx current_line of
        Some m \<Rightarrow>
          if h_age h = []
          then Some (jockey_lookahead lines k
                 (h\<lparr>h_sex := group m 1, h_age := group m 2 @ [0x6B73], h_coat_color := group m 3\<rparr>))
          else None
      | None \<Rightarrow> None)"

definition load_weight_rule :: "ustr \<Rightarrow> horse_data \<Rightarrow> horse_data option" where
  "load_weight_rule current_line h =
     (case re_search bare_decimal_rx current_line of
        Some m \<Rightarrow>
          if h_load_weight h = []
          then Some (h\<lparr>h_load_weight := group m 1 @ u ''kg''\<rparr>) else None
      | None \<Rightarrow> None)"

text \<open>Lines 332 to 336: the dictionary returned by the past-race parser is never empty,
  so the test of line 335 holds.\<close>

definition past_race_rule :: "ustr list \<Rightarrow> nat \<Rightarrow> ustr \<Rightarrow> horse_data \<Rightarrow> horse_data" where
  "past_race_rule lines k current_line h =
     (if found dotted_date_rx current_line
      then h\<lparr>h_past_races :=
               h_past_races h @ [parse_past_race current_line (take 8 (drop k lines))]\<rparr>
      else h)"

text \<open>
  Lines 282 to 338: what one turn of the inner loop does with line \<open>k\<close> when that line is
  not a header. Every such turn ends with \<open>k\<close> moved on by one, so the turn is a function
  of the entrant alone. The first rule that applies wins.
\<close>

definition inner_turn :: "ustr list \<Rightarrow> nat \<Rightarrow> horse_data \<Rightarrow> horse_data" where
  "inner_turn lines k h =
     (let current_line = strip (lines ! k)
      in if current_line = [] then h
         else (case weight_rule current_line h of Some h' \<Rightarrow> h' | None \<Rightarrow>
              (case odds_rule current_line h of Some h' \<Rightarrow> h' | None \<Rightarrow>
              (case age_rule lines k current_line h of Some h' \<Rightarrow> h' | None \<Rightarrow>
              (case load_weight_rule current_line h of Some h' \<Rightarrow> h' | None \<Rightarrow>
               past_race_rule lines k current_line h)))))"

text \<open>The inner loop of lines 281 to 338: it stops at the next header, which it leaves
  unread, or at the end of the lines.\<close>

function inner_loop :: "ustr list \<Rightarrow> nat \<Rightarrow> horse_data \<Rightarrow> nat \<times> horse_data" where
  "inner_loop lines k h =
     (if k < length lines then
        (if is_header (lines ! k) then (k, h)
         else inner_loop lines (Suc k) (inner_turn lines k h))
      else (k, h))"
  by pat_completeness auto
termination
  by (relation "measure (\<lambda>(lines, k, h). length lines - k)") auto

declare inner_loop.simps [simp del]

text \<open>One entrant, from its header at line \<open>i\<close>: the entrant and the line at which the
  outer loop goes on.\<close>

definition entrant_at :: "ustr list \<Rightarrow> nat \<Rightarrow> rmatch \<Rightarrow> nat \<times> horse_data" where
  "entrant_at lines i frame_horse_match =
     (let (j, h) = positional_fields lines (Suc i)
                     (new_horse (group frame_horse_match 1) (group frame_horse_match 2))
      in inner_loop lines j h)"

text \<open>The inner loop and the positional reading only move forward.\<close>

lemma inner_loop_forward: "k \<le> fst (inner_loop lines k h)"
proof (induction lines k h rule: inner_loop.induct)
  case (1 lines k h)
  show ?case
  proof (cases "k < length lines \<and> \<not> is_header (lines ! k)")
    case True
    with 1 have "Suc k \<le> fst (inner_loop lines (Suc k) (inner_turn lines k h))" by simp
    with True show ?thesis by (simp add: inner_loop.simps [of lines k h])
  next
    case False
    then show ?thesis by (auto simp add: inner_loop.simps [of lines k h])
  qed
qed

lemma take_line_forward: "fst jh \<le> fst (take_line lines assign jh)"
  by (simp add: take_line_def)

lemma stable_line_forward: "fst jh \<le> fst (stable_line lines jh)"
  by (simp add: stable_line_def)

lemma positional_fields_forward: "j \<le> fst (positional_fields lines j h)"
proof -
  have "fst (j, h) \<le> fst (positional_fields lines j h)"
    unfolding positional_fields_def Let_def
    by (intro order_trans [OF _ stable_line_forward] order_trans [OF _ take_line_forward]) simp
  then show ?thesis by simp
qed

lemma entrant_at_forward: "i < fst (entrant_at lines i m)"
proof -
  obtain j h where p: "positional_fields lines (Suc i) (new_horse (group m 1) (group m 2)) = (j, h)"
    by (cases "positional_fields lines (Suc i) (new_horse (group m 1) (group m 2))")
  from positional_fields_forward [of "Suc i" lines "new_horse (group m 1) (group m 2)"] p
  have "Suc i \<le> j" by simp
  moreover have "j \<le> fst (inner_loop lines j h)" by (rule inner_loop_forward)
  moreover have "entrant_at lines i m = inner_loop lines j h"
    by (simp only: entrant_at_def Let_def p prod.case)
  ultimately show ?thesis by simp
qed

text \<open>The outer loop of lines 213 to 343.\<close>

function outer_loop :: "ustr list \<Rightarrow> nat \<Rightarrow> horse_data list \<Rightarrow> horse_data list" where
  "outer_loop lines i horses =
     (if i < length lines then
        (case re_match frame_horse_rx (strip (lines ! i)) of
           Some frame_horse_match \<Rightarrow>
             (let (k, horse) = entrant_at lines i frame_horse_match
              in outer_loop lines k (horses @ [horse]))
         | None \<Rightarrow> outer_loop lines (Suc i) horses)
      else horses)"
  by pat_completeness auto
termination
proof (relation "measure (\<lambda>(lines, i, horses). length lines - i)")
  show "wf (measure (\<lambda>(lines, i, horses). length lines - i))" by simp
next
  fix lines :: "ustr list" and i :: nat and horses :: "horse_data list"
    and m :: rmatch and x :: "nat \<times> horse_data" and k :: nat and horse :: horse_data
  assume "i < length lines" and "x = entrant_at lines i m" and "(k, horse) = x"
  then show "((lines, k, horses @ [horse]), (lines, i, horses))
      \<in> measure (\<lambda>(lines, i, horses). length lines - i)"
    using entrant_at_forward [of i lines m] by (cases "entrant_at lines i m") auto
next
  fix lines :: "ustr list" and i :: nat and horses :: "horse_data list"
  assume "i < length lines"
  then show "((lines, Suc i, horses), (lines, i, horses))
      \<in> measure (\<lambda>(lines, i, horses). length lines - i)"
    by simp
qed

declare outer_loop.simps [simp del]

definition extract_horses_data :: "ustr list \<Rightarrow> horse_data list" where
  "extract_horses_data lines = outer_loop lines 0 []"

section \<open>The training-record extractor\<close>

text \<open>\<^verbatim>\<open>extract_training_data\<close> (source lines 515 to 546); the dictionary of lines 526 to
  534 is a record with the prefix \<open>tr_\<close>.\<close>

record training_info =
  tr_horse_name :: ustr
  tr_date :: ustr
  tr_course :: ustr
  tr_condition :: ustr
  tr_jockey :: ustr
  tr_time :: ustr
  tr_evaluation :: ustr

definition empty_training_info :: training_info where
  "empty_training_info = \<lparr>tr_horse_name = [], tr_date = [], tr_course = [], tr_condition = [],
     tr_jockey = [], tr_time = [], tr_evaluation = []\<rparr>"

definition decimal_rx :: rx where
  "decimal_rx = seqs [plus digit, Str (u ''.''), plus digit]"

definition slash_date_rx :: rx where
  "slash_date_rx = seqs [times digit 4, Str (u ''/''), times digit 2, Str (u ''/''), times digit 2]"

text \<open>Lines 537 to 542: the parts of the line, each in turn.\<close>

definition training_part :: "training_info \<Rightarrow> ustr \<Rightarrow> training_info" where
  "training_part training_info part =
     (if found slash_date_rx part then training_info\<lparr>tr_date := part\<rparr>
      else if found decimal_rx part then training_info\<lparr>tr_time := part\<rparr>
      else training_info)"

fun training_loop :: "bool \<Rightarrow> ustr list \<Rightarrow> training_info list \<Rightarrow> training_info list" where
  "training_loop in_training_section [] training_data = training_data"
| "training_loop in_training_section (line # rest) training_data =
     (if contains training_heading line then training_loop True rest training_data
      else if in_training_section \<and> found decimal_rx line
        then training_loop in_training_section rest
               (training_data @ [foldl training_part empty_training_info (split_ws line)])
      else training_loop in_training_section rest training_data)"

definition extract_training_data :: "ustr list \<Rightarrow> training_info list" where
  "extract_training_data lines = training_loop False lines []"

section \<open>The parser object\<close>

text \<open>
  The object of class \<^verbatim>\<open>KeibaDataOrganizer\<close> has three attributes (lines 18 to 21).
  \<^verbatim>\<open>race_info\<close> starts as the empty dictionary, which is \<open>None\<close> here. A method that
  assigns an attribute returns the object with the attribute replaced.
\<close>

record organizer =
  self_race_info :: "race_info option"
  self_horses_data :: "horse_data list"
  self_training_data :: "training_info list"

definition new_organizer :: organizer where
  "new_organizer = \<lparr>self_race_info = None, self_horses_data = [], self_training_data = []\<rparr>"

text \<open>The dictionary returned on lines 39 to 43.\<close>

record parse_result =
  res_race_info :: "race_info option"
  res_horses_data :: "horse_data list"
  res_training_data :: "training_info list"

text \<open>Line 25: the stripped lines of the text that are not empty.\<close>

definition text_lines :: "ustr \<Rightarrow> ustr list" where
  "text_lines text = map strip (filter (\<lambda>line. strip line \<noteq> []) (split_on 0x0A text))"

text \<open>\<^verbatim>\<open>parse_keiba_data\<close> (lines 23 to 43): the result and the object after the call.\<close>

definition parse_keiba_data :: "organizer \<Rightarrow> ustr \<Rightarrow> parse_result \<times> organizer" where
  "parse_keiba_data self text =
     (let lines = text_lines text;
          filtered_lines = filter_training_section lines;
          self = self\<lparr>self_race_info := Some (extract_race_info filtered_lines)\<rparr>;
          self = self\<lparr>self_horses_data := extract_horses_data filtered_lines\<rparr>;
          self = self\<lparr>self_training_data := extract_training_data lines\<rparr>
      in (\<lparr>res_race_info = self_race_info self,
           res_horses_data = self_horses_data self,
           res_training_data = self_training_data self\<rparr>, self))"

section \<open>Notions used in the statements and proofs\<close>

text \<open>
  Two syntactic properties of a pattern: every character a match of it consumes satisfies
  \<open>Q\<close>; every match of it ends where \<^verbatim>\<open>$\<close> holds.
\<close>

fun rx_within :: "(nat \<Rightarrow> bool) \<Rightarrow> rx \<Rightarrow> bool" where
  "rx_within Q (One a) = (\<forall>c. atom_ok a c \<longrightarrow> Q c)"
| "rx_within Q (Rep a lo hi greedy) = (\<forall>c. atom_ok a c \<longrightarrow> Q c)"
| "rx_within Q (Str w) = (\<forall>c \<in> set w. Q c)"
| "rx_within Q (Seq a b) = (rx_within Q a \<and> rx_within Q b)"
| "rx_within Q (Alt a b) = (rx_within Q a \<and> rx_within Q b)"
| "rx_within Q (Grp n r) = rx_within Q r"
| "rx_within Q Bol = True"
| "rx_within Q Eol = True"

fun ends_at_eol :: "rx \<Rightarrow> bool" where
  "ends_at_eol Eol = True"
| "ends_at_eol (Seq a b) = ends_at_eol b"
| "ends_at_eol (Alt a b) = (ends_at_eol a \<and> ends_at_eol b)"
| "ends_at_eol (Grp n r) = ends_at_eol r"
| "ends_at_eol r = False"

text \<open>The frame number and the horse number captured from a header line (groups 1 and
  2 of the pattern of line 217).\<close>

definition header_numbers :: "ustr \<Rightarrow> ustr \<times> ustr" where
  "header_numbers line =
     (case re_match frame_horse_rx (strip line) of
        Some m \<Rightarrow> (group m 1, group m 2) | None \<Rightarrow> ([], []))"

text \<open>
  \<open>well_spaced lines\<close>: none of the four lines after a header line is a header line
  (fewer when the lines end before).
\<close>

fun well_spaced :: "ustr list \<Rightarrow> bool" where
  "well_spaced [] = True"
| "well_spaced (line # rest) =
     ((is_header line \<longrightarrow> \<not> list_ex is_header (take 4 rest)) \<and> well_spaced rest)"

text \<open>\<open>firstly r st st'\<close>: \<open>st'\<close> is the state in which the matcher first finds a match
  of \<open>r\<close> begun in \<open>st\<close> to end.\<close>

definition firstly :: "rx \<Rightarrow> mstate \<Rightarrow> mstate \<Rightarrow> bool" where
  "firstly r st st' = (case rx_run r st of [] \<Rightarrow> False | x # rest \<Rightarrow> x = st')"

text \<open>
  The horse name that the lines give to the entrant whose header is line \<open>i\<close>: the
  second line after the header is the name line when it and the line before it are not
  blank; the name is the stripped name line without a final letter B. Without a name
  line the name is empty.
\<close>

definition horse_name_at :: "ustr list \<Rightarrow> nat \<Rightarrow> ustr" where
  "horse_name_at lines i =
     (if Suc (Suc i) < length lines \<and> strip (lines ! Suc i) \<noteq> [] \<and>
         strip (lines ! Suc (Suc i)) \<noteq> []
      then (let name = strip (lines ! Suc (Suc i))
            in if last name = 0x42 then butlast name else name)
      else [])"

text \<open>What is compared of an entrant and of the lines at its header: the frame number,
  the horse number and the horse name.\<close>

definition entrant_key :: "horse_data \<Rightarrow> ustr \<times> ustr \<times> ustr" where
  "entrant_key h = (h_frame_number h, h_horse_number h, h_horse_name h)"

definition header_key :: "ustr list \<Rightarrow> nat \<Rightarrow> ustr \<times> ustr \<times> ustr" where
  "header_key lines i =
     (fst (header_numbers (lines ! i)), snd (header_numbers (lines ! i)), horse_name_at lines i)"

section \<open>Properties of the training-section filter\<close>

text \<open>
  Once \<open>skip\<close> is set, the test of line 57 holds for every later line, so every later
  line is dropped and \<open>skip\<close> stays set: lines 63 to 110 are never reached with
  \<open>skip\<close> set.
\<close>

lemma filter_loop_skipping: "filter_loop True ls filtered = filtered"
  by (induction ls) simp_all

lemma filter_loop_normal:
  "filter_loop False ls filtered = filtered @ takeWhile (\<lambda>l. \<not> starts_training l) ls"
  by (induction ls arbitrary: filtered) (simp_all add: starts_training_def filter_loop_skipping)

lemma filter_training_section_prefix:
  "filter_training_section ls = takeWhile (\<lambda>l. \<not> starts_training l) ls"
  by (simp add: filter_training_section_def filter_loop_normal)

text \<open>
  C1. In the skipping state a line that matches the frame and horse number header should
  end the skipping and be kept. The code drops it: the line \<open>1 1\<close> matches the header
  pattern, yet the loop started in the skipping state keeps nothing of it, and after a
  training heading the filter returns only the lines before the heading.
\<close>

theorem skipping_drops_frame_horse_header:
  "matches frame_horse_header (u ''1 1'') \<and>
   filter_loop True [u ''1 1''] [] = [] \<and>
   filter_training_section [u ''12R'', training_heading, u ''1 1''] = [u ''12R'']"
  by (simp add: filter_training_section_def training_heading_def training_table_header_def
      frame_horse_header_def re_search_def re_match_def match_at_def u_def
      is_digit_def nd_starts_def is_space_def)

text \<open>
  C7. The filter is idempotent: filtering the output of the filter returns that output.
\<close>

theorem filter_idempotent:
  "filter_training_section (filter_training_section ls) = filter_training_section ls"
  by (simp add: filter_training_section_prefix)

section \<open>Properties of the race-info extractor\<close>

lemmas eval_defs = u_def is_digit_def nd_starts_def is_space_def strip_def
  re_search_def re_match_def match_at_def

lemma composite_fields_keeps:
  "ri_grade (composite_fields ri line) = ri_grade ri"
  "ri_date (composite_fields ri line) = ri_date ri"
  "ri_race_number (composite_fields ri line) = ri_race_number ri"
  "ri_race_name (composite_fields ri line) = ri_race_name ri"
  by (simp_all add: composite_fields_def Let_def split: option.splits)

lemma other_fields_keeps:
  "ri_grade (other_fields ri line) = ri_grade ri"
  "ri_date (other_fields ri line) = ri_date ri"
  "ri_race_number (other_fields ri line) = ri_race_number ri"
  "ri_race_name (other_fields ri line) = ri_race_name ri"
  by (simp_all add: other_fields_def Let_def composite_fields_keeps split: option.splits)

lemma race_info_step_keeps:
  "ri_grade (race_info_step ri line) = ri_grade ri"
  "ri_date (race_info_step ri line) = ri_date ri"
  by (simp_all add: race_info_step_def Let_def other_fields_keeps)

lemma race_info_step_race_number:
  "ri_race_number (race_info_step ri line) =
     (if is_race_number line then strip line else ri_race_number ri)"
  by (simp add: race_info_step_def Let_def other_fields_keeps is_race_number_def)

text \<open>The branch of line 161 needs the race name to be both set and unset, so a turn
  sets the race name by the test of lines 154 to 157 or not at all.\<close>

lemma race_info_step_race_name:
  "ri_race_name (race_info_step ri line) =
     (if ri_race_name ri = [] \<and> strip line \<notin> set site_terms \<and> special_race_name line
      then strip line else ri_race_name ri)"
  by (simp add: race_info_step_def Let_def other_fields_keeps)

lemma foldl_step_keeps:
  "ri_grade (foldl race_info_step ri ls) = ri_grade ri \<and>
   ri_date (foldl race_info_step ri ls) = ri_date ri"
  by (induction ls arbitrary: ri) (simp_all add: race_info_step_keeps)

lemma foldl_step_race_number:
  "ri_race_number (foldl race_info_step ri ls) =
     (if filter is_race_number ls = [] then ri_race_number ri
      else strip (last (filter is_race_number ls)))"
  by (induction ls rule: rev_induct) (simp_all add: race_info_step_race_number)

lemma is_race_number_1R_2R: "is_race_number (u ''1R'') \<and> is_race_number (u ''2R'')"
  by (simp add: is_race_number_def race_number_rx_def eval_defs)

text \<open>
  C3. The race number is taken from every line that matches, with no test that the field
  is still empty, so of several matching lines the last one stays: the race number is the
  stripped text of the last line that is a race number, and empty when there is none.
\<close>

theorem race_number_is_last_match:
  "ri_race_number (extract_race_info ls) =
     (if filter is_race_number ls = [] then []
      else strip (last (filter is_race_number ls)))"
  by (simp add: extract_race_info_def foldl_step_race_number empty_race_info_def)

theorem race_number_is_last_match_witness:
  "filter is_race_number [u ''1R'', u ''2R''] \<noteq> [] \<and>
   ri_race_number (extract_race_info [u ''1R'', u ''2R'']) = u ''2R''"
  using race_number_is_last_match [of "[u ''1R'', u ''2R'']"] is_race_number_1R_2R
  by (simp add: u_def strip_def is_space_def)

text \<open>The claim as stated fails: of the two race-number lines \<open>1R\<close> and \<open>2R\<close> the
  first does not stay.\<close>

theorem race_number_first_match_counterexample:
  "is_race_number (u ''1R'') \<and> is_race_number (u ''2R'') \<and> u ''1R'' \<noteq> u ''2R'' \<and>
   ri_race_number (extract_race_info [u ''1R'', u ''2R'']) \<noteq> u ''1R''"
  unfolding extract_race_info_def foldl_step_race_number
  using is_race_number_1R_2R by (simp add: u_def strip_def is_space_def)

text \<open>
  C5. A line that matches the age and class pattern should become the race name when no
  line was taken before. The line U+0033 U+6B73 U+4EE5 U+4E0A U+0031 U+52DD U+30AF U+30E9
  U+30B9 matches the pattern of line 161 and is the only line, yet the race name stays
  empty.
\<close>

theorem age_class_fallback_never_taken:
  "found age_class_rx [0x33, 0x6B73, 0x4EE5, 0x4E0A, 0x31, 0x52DD, 0x30AF, 0x30E9, 0x30B9] \<and>
   ri_race_name (extract_race_info
     [[0x33, 0x6B73, 0x4EE5, 0x4E0A, 0x31, 0x52DD, 0x30AF, 0x30E9, 0x30B9]]) = []"
  by (simp add: extract_race_info_def empty_race_info_def race_info_step_race_name
      special_race_name_def age_class_rx_def grade_letter_end_rx_def cup_memorial_rx_def
      prize_rx_def not_a_name_rx_def site_terms_def eval_defs)

text \<open>
  C10. No rule of the extractor assigns the grade or the date: both are empty in the
  record returned for any lines.
\<close>

theorem grade_and_date_stay_empty:
  "ri_grade (extract_race_info ls) = [] \<and> ri_date (extract_race_info ls) = []"
  by (simp add: extract_race_info_def foldl_step_keeps empty_race_info_def)

section \<open>Properties of the parser object\<close>

lemma text_lines_empty: "text_lines [] = []"
  by (simp add: text_lines_def strip_def)

text \<open>
  C8. The result of a call and the object after the call are determined by the text
  alone: two calls on the same text give the same result whatever the two objects held
  before, in particular after an earlier call on another text.
\<close>

theorem parse_independent_of_object:
  "parse_keiba_data self1 text = parse_keiba_data self2 text \<and>
   fst (parse_keiba_data (snd (parse_keiba_data self1 other)) text) =
     fst (parse_keiba_data new_organizer text)"
  by (cases self1, cases self2) (simp add: parse_keiba_data_def Let_def new_organizer_def)

text \<open>
  C9. On the empty text the call returns a race-info record whose fields are all empty,
  no entrant and no training record. The model has no error value because no statement
  reached from \<^verbatim>\<open>parse_keiba_data\<close> raises: every index is guarded by a test on the
  length and the one conversion that can fail is caught on line 506.
\<close>

theorem parse_empty_text:
  "fst (parse_keiba_data self []) =
     \<lparr>res_race_info = Some \<lparr>ri_race_number = [], ri_race_name = [], ri_date = [], ri_time = [],
        ri_venue = [], ri_course_type = [], ri_distance = [], ri_direction = [],
        ri_weather = [], ri_track_condition = [], ri_grade = [], ri_prize_money = [],
        ri_entry_count = []\<rparr>,
      res_horses_data = [], res_training_data = []\<rparr>"
  by (simp add: parse_keiba_data_def Let_def text_lines_empty filter_training_section_def
      extract_race_info_def empty_race_info_def extract_horses_data_def outer_loop.simps
      extract_training_data_def)

section \<open>Properties of the entrant extractor\<close>

lemma strip_last_not_space: "strip s \<noteq> [] \<Longrightarrow> \<not> is_space (last (strip s))"
  by (simp add: strip_def last_rev hd_dropWhile)

lemma match_at_blinker_Nil: "match_at blinker_rx p [] = None"
  by (simp add: match_at_def blinker_rx_def u_def)

lemma match_at_blinker_Cons:
  "match_at blinker_rx p (c # cs) =
     (if c = 0x42 \<and> (cs = [] \<or> cs = [0x0A]) then Some (p, Suc p, [(0, [0x42])]) else None)"
  by (simp add: match_at_def blinker_rx_def u_def)

text \<open>On a text that does not end in a newline the substitution of line 253 removes a
  final letter B and nothing else.\<close>

lemma sub_from_blinker:
  "s = [] \<or> last s \<noteq> 0x0A \<Longrightarrow>
   sub_from blinker_rx [] p s = (if s \<noteq> [] \<and> last s = 0x42 then butlast s else s)"
proof (induction s arbitrary: p)
  case Nil
  show ?case by (simp add: match_at_blinker_Nil)
next
  case (Cons c cs)
  show ?case
  proof (cases "cs = []")
    case True
    then show ?thesis by (simp add: match_at_blinker_Cons match_at_blinker_Nil)
  next
    case False
    with Cons.prems have "last cs \<noteq> 0x0A" by simp
    then have ih: "sub_from blinker_rx [] (Suc p) cs =
        (if cs \<noteq> [] \<and> last cs = 0x42 then butlast cs else cs)"
      using Cons.IH by simp
    from False \<open>last cs \<noteq> 0x0A\<close> have "cs \<noteq> [0x0A]" by auto
    with False ih show ?thesis by (simp add: match_at_blinker_Cons)
  qed
qed

lemma re_sub_blinker_strip:
  "re_sub blinker_rx [] (strip s) =
     (if strip s \<noteq> [] \<and> last (strip s) = 0x42 then butlast (strip s) else strip s)"
proof -
  have "strip s = [] \<or> last (strip s) \<noteq> 0x0A"
    using strip_last_not_space [of s] by (auto simp add: is_space_def)
  then show ?thesis unfolding re_sub_def by (rule sub_from_blinker)
qed


lemma weight_rule_keeps:
  "weight_rule cl h = Some h' \<Longrightarrow> h_frame_number h' = h_frame_number h \<and>
     h_horse_number h' = h_horse_number h \<and> h_horse_name h' = h_horse_name h"
  by (auto simp add: weight_rule_def split: option.splits if_splits)

lemma odds_rule_keeps:
  "odds_rule cl h = Some h' \<Longrightarrow> h_frame_number h' = h_frame_number h \<and>
     h_horse_number h' = h_horse_number h \<and> h_horse_name h' = h_horse_name h"
  by (auto simp add: odds_rule_def split: option.splits if_splits)

lemma jockey_lookahead_keeps:
  "h_frame_number (jockey_lookahead ls k h) = h_frame_number h \<and>
   h_horse_number (jockey_lookahead ls k h) = h_horse_number h \<and>
   h_horse_name (jockey_lookahead ls k h) = h_horse_name h"
  by (simp add: jockey_lookahead_def)

lemma age_rule_keeps:
  "age_rule ls k cl h = Some h' \<Longrightarrow> h_frame_number h' = h_frame_number h \<and>
     h_horse_number h' = h_horse_number h \<and> h_horse_name h' = h_horse_name h"
  by (auto simp add: age_rule_def jockey_lookahead_keeps split: option.splits if_splits)

lemma load_weight_rule_keeps:
  "load_weight_rule cl h = Some h' \<Longrightarrow> h_frame_number h' = h_frame_number h \<and>
     h_horse_number h' = h_horse_number h \<and> h_horse_name h' = h_horse_name h"
  by (auto simp add: load_weight_rule_def split: option.splits if_splits)

lemma past_race_rule_keeps:
  "h_frame_number (past_race_rule ls k cl h) = h_frame_number h \<and>
   h_horse_number (past_race_rule ls k cl h) = h_horse_number h \<and>
   h_horse_name (past_race_rule ls k cl h) = h_horse_name h"
  by (simp add: past_race_rule_def)

lemma inner_turn_cases:
  "inner_turn ls k h = h \<or>
   weight_rule (strip (ls ! k)) h = Some (inner_turn ls k h) \<or>
   odds_rule (strip (ls ! k)) h = Some (inner_turn ls k h) \<or>
   age_rule ls k (strip (ls ! k)) h = Some (inner_turn ls k h) \<or>
   load_weight_rule (strip (ls ! k)) h = Some (inner_turn ls k h) \<or>
   inner_turn ls k h = past_race_rule ls k (strip (ls ! k)) h"
  by (simp add: inner_turn_def Let_def split: option.splits)

lemma inner_turn_keeps:
  "h_frame_number (inner_turn ls k h) = h_frame_number h \<and>
   h_horse_number (inner_turn ls k h) = h_horse_number h \<and>
   h_horse_name (inner_turn ls k h) = h_horse_name h"
  using inner_turn_cases [of ls k h]
proof (elim disjE)
  assume "inner_turn ls k h = h"
  then show ?thesis by simp
next
  assume "weight_rule (strip (ls ! k)) h = Some (inner_turn ls k h)"
  then show ?thesis by (rule weight_rule_keeps)
next
  assume "odds_rule (strip (ls ! k)) h = Some (inner_turn ls k h)"
  then show ?thesis by (rule odds_rule_keeps)
next
  assume "age_rule ls k (strip (ls ! k)) h = Some (inner_turn ls k h)"
  then show ?thesis by (rule age_rule_keeps)
next
  assume "load_weight_rule (strip (ls ! k)) h = Some (inner_turn ls k h)"
  then show ?thesis by (rule load_weight_rule_keeps)
next
  assume "inner_turn ls k h = past_race_rule ls k (strip (ls ! k)) h"
  then show ?thesis by (simp add: past_race_rule_keeps)
qed

lemma inner_loop_keeps:
  "h_frame_number (snd (inner_loop ls k h)) = h_frame_number h \<and>
   h_horse_number (snd (inner_loop ls k h)) = h_horse_number h \<and>
   h_horse_name (snd (inner_loop ls k h)) = h_horse_name h"
proof (induction ls k h rule: inner_loop.induct)
  case (1 lines k h)
  show ?case
  proof (cases "k < length lines \<and> \<not> is_header (lines ! k)")
    case True
    with 1 show ?thesis by (simp add: inner_loop.simps [of lines k h] inner_turn_keeps [of lines k h])
  next
    case False
    then show ?thesis by (auto simp add: inner_loop.simps [of lines k h])
  qed
qed

lemma inner_loop_scan:
  "k \<le> length ls \<Longrightarrow>
   fst (inner_loop ls k h) \<le> length ls \<and>
   (\<forall>t. k \<le> t \<and> t < fst (inner_loop ls k h) \<longrightarrow> \<not> is_header (ls ! t))"
proof (induction ls k h rule: inner_loop.induct)
  case (1 lines k h)
  show ?case
  proof (cases "k < length lines \<and> \<not> is_header (lines ! k)")
    case True
    with 1 have ih: "fst (inner_loop lines (Suc k) (inner_turn lines k h)) \<le> length lines \<and>
      (\<forall>t. Suc k \<le> t \<and> t < fst (inner_loop lines (Suc k) (inner_turn lines k h))
         \<longrightarrow> \<not> is_header (lines ! t))" by simp
    have eq: "inner_loop lines k h = inner_loop lines (Suc k) (inner_turn lines k h)"
      using True by (simp add: inner_loop.simps [of lines k h])
    show ?thesis
    proof (intro conjI allI impI)
      show "fst (inner_loop lines k h) \<le> length lines" using ih eq by simp
    next
      fix t assume t: "k \<le> t \<and> t < fst (inner_loop lines k h)"
      show "\<not> is_header (lines ! t)"
      proof (cases "t = k")
        case True
        with \<open>k < length lines \<and> \<not> is_header (lines ! k)\<close> show ?thesis by simp
      next
        case False
        with t have "Suc k \<le> t" by simp
        with t ih eq show ?thesis by simp
      qed
    qed
  next
    case False
    with 1 show ?thesis by (auto simp add: inner_loop.simps [of lines k h])
  qed
qed

lemma take_line_range:
  "fst (take_line ls assign jh) = fst jh \<or>
   (fst (take_line ls assign jh) = Suc (fst jh) \<and> fst jh < length ls)"
  by (simp add: take_line_def)

lemma stable_line_range:
  "fst (stable_line ls jh) = fst jh \<or>
   (fst (stable_line ls jh) = Suc (fst jh) \<and> fst jh < length ls \<and>
    (contains [0x7F8E, 0x6D66] (ls ! fst jh) \<or> contains [0x6817, 0x6771] (ls ! fst jh)))"
  by (simp add: stable_line_def)

lemma take_line_keeps:
  assumes "\<And>t h. h_frame_number (assign t h) = h_frame_number h \<and>
                  h_horse_number (assign t h) = h_horse_number h"
  shows "h_frame_number (snd (take_line ls assign jh)) = h_frame_number (snd jh) \<and>
         h_horse_number (snd (take_line ls assign jh)) = h_horse_number (snd jh)"
  using assms by (simp add: take_line_def)

lemma stable_line_keeps:
  "h_frame_number (snd (stable_line ls jh)) = h_frame_number (snd jh) \<and>
   h_horse_number (snd (stable_line ls jh)) = h_horse_number (snd jh) \<and>
   h_horse_name (snd (stable_line ls jh)) = h_horse_name (snd jh)"
  by (simp add: stable_line_def split: option.splits)

lemma positional_fields_keeps:
  "h_frame_number (snd (positional_fields ls j h)) = h_frame_number h \<and>
   h_horse_number (snd (positional_fields ls j h)) = h_horse_number h"
  unfolding positional_fields_def Let_def
  by (simp add: stable_line_keeps take_line_keeps split: option.splits)

text \<open>The positional reading takes at most the four lines after the header, and a fifth
  only when that line names a training centre.\<close>

lemma positional_fields_range:
  "j0 \<le> fst (positional_fields ls j0 h0) \<and>
   fst (positional_fields ls j0 h0) \<le> j0 + 5 \<and>
   (j0 \<le> length ls \<longrightarrow> fst (positional_fields ls j0 h0) \<le> length ls) \<and>
   (fst (positional_fields ls j0 h0) = j0 + 5 \<longrightarrow>
      contains [0x7F8E, 0x6D66] (ls ! (j0 + 4)) \<or> contains [0x6817, 0x6771] (ls ! (j0 + 4)))"
proof -
  define s1 where "s1 = take_line ls (\<lambda>text h. h\<lparr>h_father := text\<rparr>) (j0, h0)"
  define s2 where
    "s2 = take_line ls (\<lambda>text h. h\<lparr>h_horse_name := re_sub blinker_rx [] text\<rparr>) s1"
  define s3 where "s3 = take_line ls (\<lambda>text h. h\<lparr>h_mother := text\<rparr>) s2"
  define s4 where "s4 = take_line ls
      (\<lambda>text h. (case re_search parenthesised_rx text of
                    Some m \<Rightarrow> h\<lparr>h_mother_father := group m 1\<rparr> | None \<Rightarrow> h)) s3"
  have p: "positional_fields ls j0 h0 = stable_line ls s4"
    by (simp add: positional_fields_def Let_def s1_def s2_def s3_def s4_def)
  have r1: "fst s1 = j0 \<or> (fst s1 = Suc j0 \<and> j0 < length ls)"
    using take_line_range [of ls _ "(j0, h0)"] by (simp add: s1_def)
  have r2: "fst s2 = fst s1 \<or> (fst s2 = Suc (fst s1) \<and> fst s1 < length ls)"
    unfolding s2_def by (rule take_line_range)
  have r3: "fst s3 = fst s2 \<or> (fst s3 = Suc (fst s2) \<and> fst s2 < length ls)"
    unfolding s3_def by (rule take_line_range)
  have r4: "fst s4 = fst s3 \<or> (fst s4 = Suc (fst s3) \<and> fst s3 < length ls)"
    unfolding s4_def by (rule take_line_range)
  have r5: "fst (stable_line ls s4) = fst s4 \<or>
      (fst (stable_line ls s4) = Suc (fst s4) \<and> fst s4 < length ls \<and>
       (contains [0x7F8E, 0x6D66] (ls ! fst s4) \<or> contains [0x6817, 0x6771] (ls ! fst s4)))"
    by (rule stable_line_range)
  have b4: "j0 \<le> fst s4 \<and> fst s4 \<le> j0 + 4 \<and> (j0 \<le> length ls \<longrightarrow> fst s4 \<le> length ls)"
    using r1 r2 r3 r4 by auto
  show ?thesis
  proof (cases "fst (stable_line ls s4) = fst s4")
    case True
    then have k: "fst (positional_fields ls j0 h0) = fst s4" by (simp only: p)
    have "fst s4 \<noteq> j0 + 5" using b4 by linarith
    moreover have "fst s4 \<le> j0 + 5" using b4 by linarith
    ultimately show ?thesis unfolding k using b4 by blast
  next
    case False
    with r5 have s: "fst (stable_line ls s4) = Suc (fst s4)" "fst s4 < length ls"
      "contains [0x7F8E, 0x6D66] (ls ! fst s4) \<or> contains [0x6817, 0x6771] (ls ! fst s4)"
      by auto
    have k: "fst (positional_fields ls j0 h0) = Suc (fst s4)" using s(1) by (simp only: p)
    have c1: "j0 \<le> Suc (fst s4)" using b4 by linarith
    have c2: "Suc (fst s4) \<le> j0 + 5" using b4 by linarith
    have c3: "Suc (fst s4) \<le> length ls" using s(2) by linarith
    have c4: "Suc (fst s4) = j0 + 5 \<longrightarrow>
        contains [0x7F8E, 0x6D66] (ls ! (j0 + 4)) \<or> contains [0x6817, 0x6771] (ls ! (j0 + 4))"
    proof
      assume "Suc (fst s4) = j0 + 5"
      then have "fst s4 = j0 + 4" by linarith
      with s(3) show "contains [0x7F8E, 0x6D66] (ls ! (j0 + 4)) \<or>
          contains [0x6817, 0x6771] (ls ! (j0 + 4))" by (simp only:)
    qed
    show ?thesis unfolding k using c1 c2 c3 c4 by blast
  qed
qed

lemma outer_loop_header:
  "i < length ls \<Longrightarrow> re_match frame_horse_rx (strip (ls ! i)) = Some m \<Longrightarrow>
   outer_loop ls i acc = outer_loop ls (fst (entrant_at ls i m)) (acc @ [snd (entrant_at ls i m)])"
  by (simp add: outer_loop.simps [of ls i acc] split: prod.splits)

lemma outer_loop_other:
  "i < length ls \<Longrightarrow> \<not> is_header (ls ! i) \<Longrightarrow> outer_loop ls i acc = outer_loop ls (Suc i) acc"
  by (cases "re_match frame_horse_rx (strip (ls ! i))")
    (simp_all add: outer_loop.simps [of ls i acc] is_header_def)

lemma outer_loop_end: "length ls \<le> i \<Longrightarrow> outer_loop ls i acc = acc"
  by (simp add: outer_loop.simps [of ls i acc])

lemma outer_loop_acc: "outer_loop ls i acc = acc @ outer_loop ls i []"
proof (induction "length ls - i" arbitrary: i acc rule: less_induct)
  case less
  show ?case
  proof (cases "i < length ls")
    case False
    then show ?thesis by (simp add: outer_loop_end)
  next
    case True
    show ?thesis
    proof (cases "re_match frame_horse_rx (strip (ls ! i))")
      case None
      then have "\<not> is_header (ls ! i)" by (simp add: is_header_def)
      with True less [of "Suc i" acc] show ?thesis by (simp add: outer_loop_other)
    next
      case (Some m)
      let ?k = "fst (entrant_at ls i m)" and ?h = "snd (entrant_at ls i m)"
      have "i < ?k" by (rule entrant_at_forward)
      with True have d: "length ls - ?k < length ls - i" by simp
      have "outer_loop ls i acc = outer_loop ls ?k (acc @ [?h])"
        using True Some by (rule outer_loop_header)
      also have "\<dots> = (acc @ [?h]) @ outer_loop ls ?k []" using d by (rule less)
      also have "\<dots> = acc @ outer_loop ls ?k [?h]" using less [OF d, of "[?h]"] by simp
      also have "outer_loop ls ?k [?h] = outer_loop ls i []"
        using outer_loop_header [OF True Some, of "[]"] by simp
      finally show ?thesis .
    qed
  qed
qed

lemma starts_with_append: "starts_with w s \<Longrightarrow> s = w @ drop (length w) s"
  by (induction w s rule: starts_with.induct) simp_all

lemma take_within_takeWhile:
  "n \<le> length (takeWhile P s) \<Longrightarrow> c \<in> set (take n s) \<Longrightarrow> P c"
proof -
  assume n: "n \<le> length (takeWhile P s)" and c: "c \<in> set (take n s)"
  have "take n (takeWhile P s @ dropWhile P s) = take n (takeWhile P s)"
    using n by (simp del: takeWhile_dropWhile_id)
  then have "take n s = take n (takeWhile P s)" by simp
  then have "c \<in> set (takeWhile P s)" using c by (auto dest: in_set_takeD)
  then show "P c" by (rule set_takeWhileD [THEN conjunct2])
qed

lemma rep_results:
  assumes "st \<in> set (rx_run (Rep a lo hi greedy) (p, s, g))"
  shows "\<exists>n. st = (p + n, drop n s, g) \<and> (\<forall>c \<in> set (take n s). atom_ok a c)"
proof -
  from assms obtain n where st: "st = (p + n, drop n s, g)"
    and n: "n \<le> length (takeWhile (atom_ok a) s)"
    by (auto simp add: Let_def split: option.splits if_splits)
  from n have "\<forall>c \<in> set (take n s). atom_ok a c"
    by (auto dest: take_within_takeWhile)
  with st show ?thesis by blast
qed

lemma rx_run_within:
  "rx_within Q r \<Longrightarrow> (p', s', g') \<in> set (rx_run r (p, s, g)) \<Longrightarrow>
   \<exists>xs. s = xs @ s' \<and> (\<forall>c \<in> set xs. Q c)"
proof (induction r arbitrary: p s g p' s' g')
  case (One a)
  then obtain c where "s = c # s'" "atom_ok a c"
    by (auto split: list.splits if_splits)
  with One.prems(1) have "s = [c] @ s' \<and> (\<forall>x \<in> set [c]. Q x)" by simp
  then show ?case by blast
next
  case (Rep a lo hi greedy)
  from rep_results [OF Rep.prems(2)] obtain n where
    "s' = drop n s" "\<forall>c \<in> set (take n s). atom_ok a c" by auto
  with Rep.prems(1) have "s = take n s @ s' \<and> (\<forall>c \<in> set (take n s). Q c)" by simp
  then show ?case by blast
next
  case (Str w)
  then have sw: "starts_with w s" and s': "s' = drop (length w) s"
    by (auto split: if_splits)
  from starts_with_append [OF sw] s' Str.prems(1)
  have "s = w @ s' \<and> (\<forall>c \<in> set w. Q c)" by simp
  then show ?case by blast
next
  case (Seq a b)
  from Seq.prems(2) obtain p1 s1 g1 where
    1: "(p1, s1, g1) \<in> set (rx_run a (p, s, g))" and
    2: "(p', s', g') \<in> set (rx_run b (p1, s1, g1))"
    by auto
  from Seq.IH(1) [OF _ 1] Seq.prems(1) obtain xs where xs: "s = xs @ s1" "\<forall>c \<in> set xs. Q c"
    by auto
  from Seq.IH(2) [OF _ 2] Seq.prems(1) obtain ys where ys: "s1 = ys @ s'" "\<forall>c \<in> set ys. Q c"
    by auto
  from xs ys have "s = (xs @ ys) @ s' \<and> (\<forall>c \<in> set (xs @ ys). Q c)" by auto
  then show ?case by blast
next
  case (Alt a b)
  then show ?case by auto
next
  case (Grp n r)
  from Grp.prems(2) obtain g0 where "(p', s', g0) \<in> set (rx_run r (p, s, g))" by auto
  with Grp.IH Grp.prems(1) show ?case by auto
next
  case Bol
  then show ?case by (auto split: if_splits)
next
  case Eol
  then show ?case by (auto split: if_splits)
qed

lemma rx_run_ends_at_eol:
  "ends_at_eol r \<Longrightarrow> (p', s', g') \<in> set (rx_run r (p, s, g)) \<Longrightarrow> s' = [] \<or> s' = [0x0A]"
proof (induction r arbitrary: p s g p' s' g')
  case (Seq a b)
  from Seq.prems(2) obtain p1 s1 g1 where
    "(p', s', g') \<in> set (rx_run b (p1, s1, g1))" by auto
  with Seq.IH(2) Seq.prems(1) show ?case by simp
next
  case (Alt a b)
  from Alt.prems(2) have "(p', s', g') \<in> set (rx_run a (p, s, g)) \<or>
      (p', s', g') \<in> set (rx_run b (p, s, g))" by simp
  then show ?case
  proof
    assume "(p', s', g') \<in> set (rx_run a (p, s, g))"
    with Alt.IH(1) Alt.prems(1) show ?thesis by simp
  next
    assume "(p', s', g') \<in> set (rx_run b (p, s, g))"
    with Alt.IH(2) Alt.prems(1) show ?thesis by simp
  qed
next
  case (Grp n r)
  from Grp.prems(2) obtain g0 where "(p', s', g0) \<in> set (rx_run r (p, s, g))" by auto
  with Grp.IH Grp.prems(1) show ?case by simp
next
  case Eol
  then show ?case by (auto split: if_splits)
qed simp_all

lemma frame_horse_chars:
  assumes "matches frame_horse_rx s" and "c \<in> set s"
  shows "is_digit c \<or> is_space c"
proof -
  from assms(1) obtain p' s' g' where
    r: "(p', s', g') \<in> set (rx_run frame_horse_rx (0, s, []))"
    by (cases "rx_run frame_horse_rx (0, s, [])") (auto simp add: re_match_def match_at_def)
  have w: "rx_within (\<lambda>c. is_digit c \<or> is_space c) frame_horse_rx"
    by (simp add: frame_horse_rx_def)
  have e: "ends_at_eol frame_horse_rx" by (simp add: frame_horse_rx_def)
  from rx_run_within [OF w r] obtain xs where
    xs: "s = xs @ s'" "\<forall>c \<in> set xs. is_digit c \<or> is_space c" by blast
  from rx_run_ends_at_eol [OF e r] have "s' = [] \<or> s' = [0x0A]" .
  then have "\<forall>c \<in> set s'. is_space c" by (auto simp add: is_space_def)
  with xs assms(2) show ?thesis by auto
qed

lemma in_set_strip: "c \<in> set l \<Longrightarrow> is_space c \<or> c \<in> set (strip l)"
proof -
  have split: "\<And>P (xs :: nat list) x. x \<in> set xs \<Longrightarrow> P x \<or> x \<in> set (dropWhile P xs)"
  proof -
    fix P and xs :: "nat list" and x
    assume "x \<in> set xs"
    moreover have "set xs = set (takeWhile P xs) \<union> set (dropWhile P xs)"
      using set_append [of "takeWhile P xs" "dropWhile P xs"] by simp
    ultimately have "x \<in> set (takeWhile P xs) \<or> x \<in> set (dropWhile P xs)" by simp
    then show "P x \<or> x \<in> set (dropWhile P xs)" by (auto dest: set_takeWhileD)
  qed
  assume "c \<in> set l"
  from split [OF this, of is_space] show ?thesis
  proof
    assume "is_space c" then show ?thesis ..
  next
    assume "c \<in> set (dropWhile is_space l)"
    then have "c \<in> set (rev (dropWhile is_space l))" by simp
    from split [OF this, of is_space] show ?thesis by (auto simp add: strip_def)
  qed
qed

lemma contains_hd: "contains (x # xs) l \<Longrightarrow> x \<in> set l"
  by (induction l) auto

text \<open>A header line holds digits and whitespace only, so it names no training centre.\<close>

lemma header_no_stable:
  assumes "is_header l"
  shows "\<not> contains [0x7F8E, 0x6D66] l \<and> \<not> contains [0x6817, 0x6771] l"
proof -
  have d: "is_digit c \<or> is_space c" if "c \<in> set l" for c
  proof -
    from in_set_strip [OF that] show ?thesis
    proof
      assume "is_space c" then show ?thesis ..
    next
      assume "c \<in> set (strip l)"
      with assms show ?thesis unfolding is_header_def by (rule frame_horse_chars)
    qed
  qed
  have n1: "\<not> (is_digit 0x7F8E \<or> is_space 0x7F8E)"
    by (simp add: is_digit_def nd_starts_def is_space_def)
  have n2: "\<not> (is_digit 0x6817 \<or> is_space 0x6817)"
    by (simp add: is_digit_def nd_starts_def is_space_def)
  have "\<not> contains [0x7F8E, 0x6D66] l"
  proof
    assume "contains [0x7F8E, 0x6D66] l"
    then have "0x7F8E \<in> set l" by (rule contains_hd)
    from d [OF this] n1 show False by simp
  qed
  moreover have "\<not> contains [0x6817, 0x6771] l"
  proof
    assume "contains [0x6817, 0x6771] l"
    then have "0x6817 \<in> set l" by (rule contains_hd)
    from d [OF this] n2 show False by simp
  qed
  ultimately show ?thesis ..
qed

lemma well_spaced_nth:
  "well_spaced ls \<Longrightarrow> i < length ls \<Longrightarrow> is_header (ls ! i) \<Longrightarrow>
   i < t \<Longrightarrow> t \<le> i + 4 \<Longrightarrow> t < length ls \<Longrightarrow> \<not> is_header (ls ! t)"
proof (induction ls arbitrary: i t)
  case Nil
  then show ?case by simp
next
  case (Cons l ls)
  show ?case
  proof (cases i)
    case 0
    with Cons.prems have n: "\<not> list_ex is_header (take 4 ls)" by simp
    from Cons.prems 0 obtain t' where t': "t = Suc t'" "t' < 4" "t' < length ls"
      by (cases t) auto
    then have "ls ! t' \<in> set (take 4 ls)"
      using nth_take [of t' 4 ls] in_set_conv_nth [of "ls ! t'" "take 4 ls"] by auto
    with n have "\<not> is_header (ls ! t')" by (auto simp add: list_ex_iff)
    with t' show ?thesis by simp
  next
    case (Suc i')
    with Cons.prems obtain t' where t': "t = Suc t'" by (cases t) auto
    with Cons.prems Suc have "\<not> is_header (ls ! t')"
      by (intro Cons.IH [of i' t']) auto
    with t' show ?thesis by simp
  qed
qed

lemma filter_drop_skip:
  "a \<le> k \<Longrightarrow> k \<le> length ls \<Longrightarrow> (\<forall>t. a \<le> t \<and> t < k \<longrightarrow> \<not> P (ls ! t)) \<Longrightarrow>
   filter P (drop a ls) = filter P (drop k ls)"
proof (induction "k - a" arbitrary: a)
  case 0
  then show ?case by simp
next
  case (Suc d)
  then have a: "a < k" "a < length ls" "\<not> P (ls ! a)" by auto
  from Suc have "filter P (drop (Suc a) ls) = filter P (drop k ls)"
    by (intro Suc.hyps(1)) auto
  moreover have "drop a ls = ls ! a # drop (Suc a) ls"
    using a(2) by (simp add: Cons_nth_drop_Suc)
  ultimately show ?case using a(3) by simp
qed

lemma entrant_at_props:
  assumes i: "i < length ls" and sep: "\<forall>t. i < t \<and> t \<le> i + 4 \<and> t < length ls \<longrightarrow> \<not> is_header (ls ! t)"
  shows "fst (entrant_at ls i m) \<le> length ls"
    and "\<forall>t. i < t \<and> t < fst (entrant_at ls i m) \<longrightarrow> \<not> is_header (ls ! t)"
    and "h_frame_number (snd (entrant_at ls i m)) = group m 1"
    and "h_horse_number (snd (entrant_at ls i m)) = group m 2"
proof -
  define h0 where "h0 = new_horse (group m 1) (group m 2)"
  define j where "j = fst (positional_fields ls (Suc i) h0)"
  define h where "h = snd (positional_fields ls (Suc i) h0)"
  have e: "entrant_at ls i m = inner_loop ls j h"
    by (simp add: entrant_at_def h0_def j_def h_def split_beta)
  from positional_fields_range [of "Suc i" ls h0] i
  have r: "Suc i \<le> j" "j \<le> i + 6" "j \<le> length ls"
    "j = i + 6 \<longrightarrow> contains [0x7F8E, 0x6D66] (ls ! (i + 5)) \<or> contains [0x6817, 0x6771] (ls ! (i + 5))"
    by (simp_all add: j_def add.commute)
  from inner_loop_scan [OF r(3), of h]
  have s: "fst (inner_loop ls j h) \<le> length ls"
    "\<forall>t. j \<le> t \<and> t < fst (inner_loop ls j h) \<longrightarrow> \<not> is_header (ls ! t)" by simp_all
  show "fst (entrant_at ls i m) \<le> length ls" using s(1) by (simp add: e)
  show "\<forall>t. i < t \<and> t < fst (entrant_at ls i m) \<longrightarrow> \<not> is_header (ls ! t)"
  proof (intro allI impI)
    fix t assume t: "i < t \<and> t < fst (entrant_at ls i m)"
    show "\<not> is_header (ls ! t)"
    proof (cases "j \<le> t")
      case True
      with t s(2) show ?thesis by (simp add: e)
    next
      case False
      with r have tl: "t < length ls" "t \<le> i + 5" by simp_all
      show ?thesis
      proof (cases "t = i + 5")
        case True
        with False r have "j = i + 6" by simp
        with r(4) True have "contains [0x7F8E, 0x6D66] (ls ! t) \<or> contains [0x6817, 0x6771] (ls ! t)"
          by simp
        with header_no_stable [of "ls ! t"] show ?thesis by blast
      next
        case False
        with tl t have "i < t \<and> t \<le> i + 4 \<and> t < length ls" by simp
        with sep show ?thesis by blast
      qed
    qed
  qed
  have "h_frame_number h = group m 1 \<and> h_horse_number h = group m 2"
    using positional_fields_keeps [of ls "Suc i" h0] by (simp add: h_def h0_def new_horse_def)
  with inner_loop_keeps [of ls j h]
  show "h_frame_number (snd (entrant_at ls i m)) = group m 1"
    and "h_horse_number (snd (entrant_at ls i m)) = group m 2"
    by (simp_all add: e)
qed

lemma outer_loop_headers:
  assumes "well_spaced ls"
  shows "i \<le> length ls \<Longrightarrow>
    map (\<lambda>h. (h_frame_number h, h_horse_number h)) (outer_loop ls i []) =
    map header_numbers (filter is_header (drop i ls))"
proof (induction "length ls - i" arbitrary: i rule: less_induct)
  case less
  show ?case
  proof (cases "i < length ls")
    case False
    with less.prems show ?thesis by (simp add: outer_loop_end)
  next
    case True
    have d: "drop i ls = ls ! i # drop (Suc i) ls" using True by (simp add: Cons_nth_drop_Suc)
    show ?thesis
    proof (cases "re_match frame_horse_rx (strip (ls ! i))")
      case None
      then have n: "\<not> is_header (ls ! i)" by (simp add: is_header_def)
      with True less.hyps [of "Suc i"] show ?thesis by (simp add: outer_loop_other d)
    next
      case (Some m)
      then have hd: "is_header (ls ! i)" by (simp add: is_header_def)
      let ?k = "fst (entrant_at ls i m)" and ?h = "snd (entrant_at ls i m)"
      have sep: "\<forall>t. i < t \<and> t \<le> i + 4 \<and> t < length ls \<longrightarrow> \<not> is_header (ls ! t)"
        using well_spaced_nth [OF assms True hd] by blast
      note p = entrant_at_props [OF True sep, of m]
      have k: "i < ?k" by (rule entrant_at_forward)
      have "outer_loop ls i [] = outer_loop ls ?k [?h]"
        using outer_loop_header [OF True Some, of "[]"] by simp
      also have "\<dots> = ?h # outer_loop ls ?k []" using outer_loop_acc [of ls ?k "[?h]"] by simp
      finally have o: "outer_loop ls i [] = ?h # outer_loop ls ?k []" .
      have ih: "map (\<lambda>h. (h_frame_number h, h_horse_number h)) (outer_loop ls ?k []) =
          map header_numbers (filter is_header (drop ?k ls))"
        using k True p(1) by (intro less.hyps) auto
      have f: "filter is_header (drop (Suc i) ls) = filter is_header (drop ?k ls)"
        using k p(1) p(2) by (intro filter_drop_skip) auto
      have hn: "header_numbers (ls ! i) = (h_frame_number ?h, h_horse_number ?h)"
        using p(3) p(4) by (simp add: header_numbers_def Some)
      show ?thesis using hd by (simp add: o d ih f hn)
    qed
  qed
qed

text \<open>
  C2. The entrant list follows the header lines when the lines read by position are not
  headers themselves: if none of the four lines after a header line is a header line,
  the entrants are as many as the header lines and carry, in the order of the header
  lines, the frame and horse numbers captured from them.
\<close>

theorem entrants_follow_headers:
  assumes "well_spaced ls"
  shows "map (\<lambda>h. (h_frame_number h, h_horse_number h)) (extract_horses_data ls) =
           map header_numbers (filter is_header ls) \<and>
         length (extract_horses_data ls) = length (filter is_header ls)"
proof -
  have m: "map (\<lambda>h. (h_frame_number h, h_horse_number h)) (extract_horses_data ls) =
      map header_numbers (filter is_header ls)"
    using outer_loop_headers [OF assms, of 0] by (simp add: extract_horses_data_def)
  have "length (extract_horses_data ls) = length (filter is_header ls)"
    using arg_cong [OF m, of length] by simp
  with m show ?thesis ..
qed

lemma is_header_examples:
  "is_header (u ''1 1'')" "is_header (u ''2 2'')"
  "\<not> is_header (u ''SireName'')" "\<not> is_header (u ''ExampleHorseB'')"
  "\<not> is_header (u ''ExampleHorse B'')"
  "\<not> is_header (u ''DamName'')" "\<not> is_header (u ''(DamSireName)'')"
  by (simp_all add: is_header_def frame_horse_rx_def eval_defs)

lemma header_numbers_examples:
  "header_numbers (u ''1 1'') = (u ''1'', u ''1'')"
  "header_numbers (u ''2 2'') = (u ''2'', u ''2'')"
  by (simp_all add: header_numbers_def frame_horse_rx_def eval_defs)

theorem entrants_follow_headers_witness:
  "well_spaced [u ''1 1'', u ''SireName'', u ''ExampleHorseB'', u ''DamName'',
                u ''(DamSireName)'', u ''2 2''] \<and>
   map (\<lambda>h. (h_frame_number h, h_horse_number h))
     (extract_horses_data [u ''1 1'', u ''SireName'', u ''ExampleHorseB'', u ''DamName'',
                           u ''(DamSireName)'', u ''2 2'']) =
     [(u ''1'', u ''1''), (u ''2'', u ''2'')]"
proof -
  have w: "well_spaced [u ''1 1'', u ''SireName'', u ''ExampleHorseB'', u ''DamName'',
                u ''(DamSireName)'', u ''2 2'']"
    by (simp add: is_header_examples)
  from entrants_follow_headers [OF w] w show ?thesis
    by (simp add: is_header_examples header_numbers_examples)
qed

lemma two_adjacent_headers:
  "extract_horses_data [u ''1 1'', u ''2 2''] = [(new_horse (u ''1'') (u ''1''))\<lparr>h_father := u ''2 2''\<rparr>]"
proof -
  have m: "re_match frame_horse_rx (strip (u ''1 1'')) = Some (0, 3, [(0, u ''1 1''), (2, u ''1''), (1, u ''1'')])"
    by (simp add: frame_horse_rx_def eval_defs)
  have s: "strip (u ''2 2'') = u ''2 2''" by (simp add: eval_defs)
  have t1: "take_line [u ''1 1'', u ''2 2''] f (Suc 0, h) = (2, f (u ''2 2'') h)" for f h
    by (simp add: take_line_def eval_defs)
  have t2: "take_line [u ''1 1'', u ''2 2''] f (2, h) = (2, h)" for f h
    by (simp add: take_line_def)
  have t3: "stable_line [u ''1 1'', u ''2 2''] (2, h) = (2, h)" for h
    by (simp add: stable_line_def)
  have p: "positional_fields [u ''1 1'', u ''2 2''] (Suc 0) h = (2, h\<lparr>h_father := u ''2 2''\<rparr>)" for h
    unfolding positional_fields_def Let_def t1 t2 t3 ..
  have i: "inner_loop [u ''1 1'', u ''2 2''] 2 h = (2, h)" for h
    by (simp add: inner_loop.simps)
  have e: "entrant_at [u ''1 1'', u ''2 2''] 0 (0, 3, [(0, u ''1 1''), (2, u ''1''), (1, u ''1'')])
      = (2, (new_horse (u ''1'') (u ''1''))\<lparr>h_father := u ''2 2''\<rparr>)"
    by (simp add: entrant_at_def p i)
  have "outer_loop [u ''1 1'', u ''2 2''] 0 [] =
      outer_loop [u ''1 1'', u ''2 2''] 2 [(new_horse (u ''1'') (u ''1''))\<lparr>h_father := u ''2 2''\<rparr>]"
    using outer_loop_header [of 0 "[u ''1 1'', u ''2 2'']" _ "[]"] m e by simp
  then show ?thesis by (simp add: extract_horses_data_def outer_loop_end)
qed

text \<open>The claim as stated fails: of two header lines in a row the second is read as the
  sire of the first entrant and starts no entrant.\<close>

theorem adjacent_headers_counterexample:
  "filter_training_section [u ''1 1'', u ''2 2''] = [u ''1 1'', u ''2 2''] \<and>
   length (filter is_header [u ''1 1'', u ''2 2'']) = 2 \<and>
   length (extract_horses_data [u ''1 1'', u ''2 2'']) \<noteq> 2"
proof -
  have "\<not> starts_training (u ''1 1'')" "\<not> starts_training (u ''2 2'')"
    by (simp_all add: starts_training_def training_heading_def training_table_header_def eval_defs)
  then have "filter_training_section [u ''1 1'', u ''2 2''] = [u ''1 1'', u ''2 2'']"
    by (simp add: filter_training_section_prefix)
  then show ?thesis by (simp add: two_adjacent_headers is_header_examples)
qed

lemma outer_loop_skip:
  "a \<le> i \<Longrightarrow> i \<le> length ls \<Longrightarrow> (\<forall>t. a \<le> t \<and> t < i \<longrightarrow> \<not> is_header (ls ! t)) \<Longrightarrow>
   outer_loop ls a acc = outer_loop ls i acc"
proof (induction "i - a" arbitrary: a)
  case 0
  then show ?case by simp
next
  case (Suc d)
  then have a: "a < i" "a < length ls" "\<not> is_header (ls ! a)" by auto
  from Suc have "outer_loop ls (Suc a) acc = outer_loop ls i acc"
    by (intro Suc.hyps(1)) auto
  with a show ?case by (simp add: outer_loop_other)
qed

lemma take_line_keeps_name:
  assumes "\<And>t h. h_horse_name (assign t h) = h_horse_name h"
  shows "h_horse_name (snd (take_line ls assign jh)) = h_horse_name (snd jh)"
  using assms by (simp add: take_line_def)

lemma take_line_taken:
  "j < length ls \<Longrightarrow> strip (ls ! j) \<noteq> [] \<Longrightarrow>
   take_line ls assign (j, h) = (Suc j, assign (strip (ls ! j)) h)"
  by (simp add: take_line_def)

lemma positional_horse_name:
  assumes "Suc j < length ls" "strip (ls ! j) \<noteq> []" "strip (ls ! Suc j) \<noteq> []"
  shows "h_horse_name (snd (positional_fields ls j h)) = re_sub blinker_rx [] (strip (ls ! Suc j))"
proof -
  define s1 where "s1 = take_line ls (\<lambda>text h. h\<lparr>h_father := text\<rparr>) (j, h)"
  define s2 where
    "s2 = take_line ls (\<lambda>text h. h\<lparr>h_horse_name := re_sub blinker_rx [] text\<rparr>) s1"
  define s3 where "s3 = take_line ls (\<lambda>text h. h\<lparr>h_mother := text\<rparr>) s2"
  define s4 where "s4 = take_line ls
      (\<lambda>text h. (case re_search parenthesised_rx text of
                    Some m \<Rightarrow> h\<lparr>h_mother_father := group m 1\<rparr> | None \<Rightarrow> h)) s3"
  have p: "positional_fields ls j h = stable_line ls s4"
    by (simp add: positional_fields_def Let_def s1_def s2_def s3_def s4_def)
  from assms have j: "j < length ls" by simp
  have 1: "s1 = (Suc j, h\<lparr>h_father := strip (ls ! j)\<rparr>)"
    unfolding s1_def using j assms(2) by (rule take_line_taken)
  have 2: "s2 = (Suc (Suc j),
      h\<lparr>h_father := strip (ls ! j), h_horse_name := re_sub blinker_rx [] (strip (ls ! Suc j))\<rparr>)"
    unfolding s2_def 1 using assms(1) assms(3) by (rule take_line_taken)
  have 3: "h_horse_name (snd s3) = h_horse_name (snd s2)"
    unfolding s3_def by (rule take_line_keeps_name) simp
  have 4: "h_horse_name (snd s4) = h_horse_name (snd s3)"
    unfolding s4_def by (rule take_line_keeps_name) (simp split: option.splits)
  have "h_horse_name (snd (stable_line ls s4)) = h_horse_name (snd s4)"
    using stable_line_keeps [of ls s4] by simp
  with 2 3 4 show ?thesis by (simp add: p)
qed

lemma first_entrant_horse_name:
  assumes pre: "\<forall>l \<in> set pre. \<not> is_header l" and hd: "is_header header"
    and father: "strip father \<noteq> []" and name: "strip name_line \<noteq> []"
  shows "\<exists>h hs. extract_horses_data (pre @ header # father # name_line # rest) = h # hs \<and>
     h_horse_name h =
       (if last (strip name_line) = 0x42 then butlast (strip name_line) else strip name_line)"
proof -
  define ls where "ls = pre @ header # father # name_line # rest"
  define i where "i = length pre"
  have n: "ls ! i = header" "ls ! Suc i = father" "ls ! Suc (Suc i) = name_line"
    "Suc (Suc i) < length ls"
    by (simp_all add: ls_def i_def nth_append)
  have "\<forall>t. 0 \<le> t \<and> t < i \<longrightarrow> \<not> is_header (ls ! t)"
    using pre by (simp add: ls_def i_def nth_append)
  then have "outer_loop ls 0 [] = outer_loop ls i []"
    using n(4) by (intro outer_loop_skip) simp_all
  moreover from hd obtain m where m: "re_match frame_horse_rx (strip (ls ! i)) = Some m"
    by (auto simp add: is_header_def n(1))
  let ?k = "fst (entrant_at ls i m)" and ?h = "snd (entrant_at ls i m)"
  have "outer_loop ls i [] = outer_loop ls ?k [?h]"
    using outer_loop_header [of i ls m "[]"] n(4) m by simp
  moreover have "outer_loop ls ?k [?h] = ?h # outer_loop ls ?k []"
    using outer_loop_acc [of ls ?k "[?h]"] by simp
  ultimately have e: "extract_horses_data ls = ?h # outer_loop ls ?k []"
    by (simp add: extract_horses_data_def)
  define h0 where "h0 = new_horse (group m 1) (group m 2)"
  have "entrant_at ls i m = inner_loop ls (fst (positional_fields ls (Suc i) h0))
      (snd (positional_fields ls (Suc i) h0))"
    by (simp add: entrant_at_def h0_def split_beta)
  then have "h_horse_name ?h = h_horse_name (snd (positional_fields ls (Suc i) h0))"
    using inner_loop_keeps by simp
  also have "\<dots> = re_sub blinker_rx [] (strip name_line)"
    using positional_horse_name [of "Suc i" ls h0] n father name by simp
  also have "\<dots> =
      (if last (strip name_line) = 0x42 then butlast (strip name_line) else strip name_line)"
    using name by (simp add: re_sub_blinker_strip)
  finally show ?thesis using e unfolding ls_def by blast
qed

lemma strip_examples:
  "strip (u ''SireName'') = u ''SireName''"
  "strip (u ''ExampleHorseB'') = u ''ExampleHorseB''"
  "strip (u ''ExampleHorse B'') = u ''ExampleHorse B''"
  "strip (u ''ExampleHorse'') = u ''ExampleHorse''"
  by (simp_all add: u_def strip_def is_space_def)

lemma take_line_left:
  "\<not> (j < length ls \<and> strip (ls ! j) \<noteq> []) \<Longrightarrow> take_line ls assign (j, h) = (j, h)"
  by (simp add: take_line_def)

lemma positional_horse_name_blank:
  assumes "h_horse_name h = []"
    and "\<not> (Suc j < length ls \<and> strip (ls ! j) \<noteq> [] \<and> strip (ls ! Suc j) \<noteq> [])"
  shows "h_horse_name (snd (positional_fields ls j h)) = []"
proof -
  define s1 where "s1 = take_line ls (\<lambda>text h. h\<lparr>h_father := text\<rparr>) (j, h)"
  define s2 where
    "s2 = take_line ls (\<lambda>text h. h\<lparr>h_horse_name := re_sub blinker_rx [] text\<rparr>) s1"
  define s3 where "s3 = take_line ls (\<lambda>text h. h\<lparr>h_mother := text\<rparr>) s2"
  define s4 where "s4 = take_line ls
      (\<lambda>text h. (case re_search parenthesised_rx text of
                    Some m \<Rightarrow> h\<lparr>h_mother_father := group m 1\<rparr> | None \<Rightarrow> h)) s3"
  have p: "positional_fields ls j h = stable_line ls s4"
    by (simp add: positional_fields_def Let_def s1_def s2_def s3_def s4_def)
  have 2: "h_horse_name (snd s2) = []"
  proof (cases "j < length ls \<and> strip (ls ! j) \<noteq> []")
    case True
    then have 1: "s1 = (Suc j, h\<lparr>h_father := strip (ls ! j)\<rparr>)"
      unfolding s1_def by (simp add: take_line_taken)
    from True assms(2) have "\<not> (Suc j < length ls \<and> strip (ls ! Suc j) \<noteq> [])" by simp
    then have "s2 = s1" unfolding s2_def 1 by (rule take_line_left)
    with 1 assms(1) show ?thesis by simp
  next
    case False
    then have 1: "s1 = (j, h)" unfolding s1_def by (rule take_line_left)
    from False have "s2 = s1" unfolding s2_def 1 by (rule take_line_left)
    with 1 assms(1) show ?thesis by simp
  qed
  have 3: "h_horse_name (snd s3) = h_horse_name (snd s2)"
    unfolding s3_def by (rule take_line_keeps_name) simp
  have 4: "h_horse_name (snd s4) = h_horse_name (snd s3)"
    unfolding s4_def by (rule take_line_keeps_name) (simp split: option.splits)
  have "h_horse_name (snd (stable_line ls s4)) = h_horse_name (snd s4)"
    using stable_line_keeps [of ls s4] by simp
  with 2 3 4 show ?thesis by (simp add: p)
qed

text \<open>The entrant begun at line \<open>i\<close>, wherever that line is.\<close>

lemma entrant_at_horse_name:
  "h_horse_name (snd (entrant_at ls i m)) = horse_name_at ls i"
proof -
  define h0 where "h0 = new_horse (group m 1) (group m 2)"
  have e: "entrant_at ls i m = inner_loop ls (fst (positional_fields ls (Suc i) h0))
      (snd (positional_fields ls (Suc i) h0))"
    by (simp add: entrant_at_def h0_def split_beta)
  have n0: "h_horse_name h0 = []" by (simp add: h0_def new_horse_def)
  have k: "h_horse_name (snd (entrant_at ls i m)) =
      h_horse_name (snd (positional_fields ls (Suc i) h0))"
    using inner_loop_keeps by (simp add: e)
  show ?thesis
  proof (cases "Suc (Suc i) < length ls \<and> strip (ls ! Suc i) \<noteq> [] \<and>
      strip (ls ! Suc (Suc i)) \<noteq> []")
    case True
    then have "h_horse_name (snd (positional_fields ls (Suc i) h0)) =
        re_sub blinker_rx [] (strip (ls ! Suc (Suc i)))"
      by (intro positional_horse_name) simp_all
    moreover from True have "horse_name_at ls i =
        (let name = strip (ls ! Suc (Suc i)) in if last name = 0x42 then butlast name else name)"
      unfolding horse_name_at_def by (rule if_P)
    ultimately show ?thesis using True by (simp add: k re_sub_blinker_strip)
  next
    case False
    with n0 have "h_horse_name (snd (positional_fields ls (Suc i) h0)) = []"
      by (intro positional_horse_name_blank) simp_all
    moreover from False have "horse_name_at ls i = []"
      unfolding horse_name_at_def by (rule if_not_P)
    ultimately show ?thesis by (simp add: k)
  qed
qed

lemma entrant_at_numbers:
  "h_frame_number (snd (entrant_at ls i m)) = group m 1 \<and>
   h_horse_number (snd (entrant_at ls i m)) = group m 2"
proof -
  define h0 where "h0 = new_horse (group m 1) (group m 2)"
  have e: "entrant_at ls i m = inner_loop ls (fst (positional_fields ls (Suc i) h0))
      (snd (positional_fields ls (Suc i) h0))"
    by (simp add: entrant_at_def h0_def split_beta)
  have "h_frame_number (snd (positional_fields ls (Suc i) h0)) = group m 1 \<and>
      h_horse_number (snd (positional_fields ls (Suc i) h0)) = group m 2"
    using positional_fields_keeps [of ls "Suc i" h0] by (simp add: h0_def new_horse_def)
  with inner_loop_keeps show ?thesis by (simp add: e)
qed

lemma filter_upt_skip:
  "a \<le> k \<Longrightarrow> k \<le> n \<Longrightarrow> (\<forall>t. a \<le> t \<and> t < k \<longrightarrow> \<not> P t) \<Longrightarrow>
   filter P [a..<n] = filter P [k..<n]"
proof (induction "k - a" arbitrary: a)
  case 0
  then show ?case by simp
next
  case (Suc d)
  then have a: "a < k" "a < n" "\<not> P a" by auto
  from Suc have "filter P [Suc a..<n] = filter P [k..<n]"
    by (intro Suc.hyps(1)) auto
  with a show ?case by (simp add: upt_conv_Cons)
qed

lemma outer_loop_names:
  "i \<le> length ls \<Longrightarrow>
   \<exists>starts. sorted_wrt (<) starts \<and>
     (\<forall>s \<in> set starts. i \<le> s \<and> s < length ls \<and> is_header (ls ! s)) \<and>
     (well_spaced ls \<longrightarrow> starts = filter (\<lambda>s. is_header (ls ! s)) [i..<length ls]) \<and>
     map entrant_key (outer_loop ls i []) = map (header_key ls) starts"
proof (induction "length ls - i" arbitrary: i rule: less_induct)
  case less
  show ?case
  proof (cases "i < length ls")
    case False
    with less.prems have "sorted_wrt (<) ([] :: nat list) \<and>
      (\<forall>s \<in> set []. i \<le> s \<and> s < length ls \<and> is_header (ls ! s)) \<and>
      (well_spaced ls \<longrightarrow> [] = filter (\<lambda>s. is_header (ls ! s)) [i..<length ls]) \<and>
      map entrant_key (outer_loop ls i []) = map (header_key ls) []"
      by (simp add: outer_loop_end)
    then show ?thesis by blast
  next
    case True
    show ?thesis
    proof (cases "re_match frame_horse_rx (strip (ls ! i))")
      case None
      then have n: "\<not> is_header (ls ! i)" by (simp add: is_header_def)
      have "\<exists>starts. sorted_wrt (<) starts \<and>
          (\<forall>s \<in> set starts. Suc i \<le> s \<and> s < length ls \<and> is_header (ls ! s)) \<and>
          (well_spaced ls \<longrightarrow> starts = filter (\<lambda>s. is_header (ls ! s)) [Suc i..<length ls]) \<and>
          map entrant_key (outer_loop ls (Suc i) []) = map (header_key ls) starts"
        using True by (intro less.hyps) simp_all
      then obtain starts where
        s: "sorted_wrt (<) starts"
          "\<forall>s \<in> set starts. Suc i \<le> s \<and> s < length ls \<and> is_header (ls ! s)"
          "well_spaced ls \<longrightarrow> starts = filter (\<lambda>s. is_header (ls ! s)) [Suc i..<length ls]"
          "map entrant_key (outer_loop ls (Suc i) []) = map (header_key ls) starts"
        by blast
      have "sorted_wrt (<) starts \<and>
        (\<forall>s \<in> set starts. i \<le> s \<and> s < length ls \<and> is_header (ls ! s)) \<and>
        (well_spaced ls \<longrightarrow> starts = filter (\<lambda>s. is_header (ls ! s)) [i..<length ls]) \<and>
        map entrant_key (outer_loop ls i []) = map (header_key ls) starts"
      proof (intro conjI)
        show "sorted_wrt (<) starts" by (rule s(1))
        show "\<forall>s \<in> set starts. i \<le> s \<and> s < length ls \<and> is_header (ls ! s)"
          using s(2) by auto
        have u: "[i..<length ls] = i # [Suc i..<length ls]" using True by (rule upt_conv_Cons)
        show "well_spaced ls \<longrightarrow> starts = filter (\<lambda>s. is_header (ls ! s)) [i..<length ls]"
          using s(3) n by (simp add: u)
        show "map entrant_key (outer_loop ls i []) = map (header_key ls) starts"
          using s(4) True n by (simp add: outer_loop_other)
      qed
      then show ?thesis by blast
    next
      case (Some m)
      then have hd: "is_header (ls ! i)" by (simp add: is_header_def)
      let ?k = "fst (entrant_at ls i m)" and ?h = "snd (entrant_at ls i m)"
      have k: "i < ?k" by (rule entrant_at_forward)
      have kl: "?k \<le> length ls"
      proof -
        define h0 where "h0 = new_horse (group m 1) (group m 2)"
        have e: "entrant_at ls i m = inner_loop ls (fst (positional_fields ls (Suc i) h0))
            (snd (positional_fields ls (Suc i) h0))"
          by (simp add: entrant_at_def h0_def split_beta)
        from positional_fields_range [of "Suc i" ls h0] True
        have "fst (positional_fields ls (Suc i) h0) \<le> length ls" by simp
        from inner_loop_scan [OF this] show ?thesis by (simp add: e)
      qed
      have "outer_loop ls i [] = outer_loop ls ?k [?h]"
        using outer_loop_header [OF True Some, of "[]"] by simp
      also have "\<dots> = ?h # outer_loop ls ?k []" using outer_loop_acc [of ls ?k "[?h]"] by simp
      finally have o: "outer_loop ls i [] = ?h # outer_loop ls ?k []" .
      have "\<exists>starts. sorted_wrt (<) starts \<and>
          (\<forall>s \<in> set starts. ?k \<le> s \<and> s < length ls \<and> is_header (ls ! s)) \<and>
          (well_spaced ls \<longrightarrow> starts = filter (\<lambda>s. is_header (ls ! s)) [?k..<length ls]) \<and>
          map entrant_key (outer_loop ls ?k []) = map (header_key ls) starts"
        using k kl True by (intro less.hyps) simp_all
      then obtain starts where
        s: "sorted_wrt (<) starts"
          "\<forall>s \<in> set starts. ?k \<le> s \<and> s < length ls \<and> is_header (ls ! s)"
          "well_spaced ls \<longrightarrow> starts = filter (\<lambda>s. is_header (ls ! s)) [?k..<length ls]"
          "map entrant_key (outer_loop ls ?k []) = map (header_key ls) starts"
        by blast
      have key: "entrant_key ?h = header_key ls i"
        using entrant_at_numbers [of ls i m] entrant_at_horse_name [of ls i m]
        by (simp add: entrant_key_def header_key_def header_numbers_def Some)
      have w: "well_spaced ls \<longrightarrow>
          i # starts = filter (\<lambda>s. is_header (ls ! s)) [i..<length ls]"
      proof
        assume ws: "well_spaced ls"
        have sep: "\<forall>t. i < t \<and> t \<le> i + 4 \<and> t < length ls \<longrightarrow> \<not> is_header (ls ! t)"
          using well_spaced_nth [OF ws True hd] by blast
        from entrant_at_props(2) [OF True sep, of m]
        have "\<forall>t. Suc i \<le> t \<and> t < ?k \<longrightarrow> \<not> is_header (ls ! t)" by simp
        then have "filter (\<lambda>s. is_header (ls ! s)) [Suc i..<length ls] =
            filter (\<lambda>s. is_header (ls ! s)) [?k..<length ls]"
          using k kl by (intro filter_upt_skip) simp_all
        moreover have "[i..<length ls] = i # [Suc i..<length ls]"
          using True by (rule upt_conv_Cons)
        ultimately show "i # starts = filter (\<lambda>s. is_header (ls ! s)) [i..<length ls]"
          using ws s(3) hd by simp
      qed
      have "sorted_wrt (<) (i # starts) \<and>
        (\<forall>s \<in> set (i # starts). i \<le> s \<and> s < length ls \<and> is_header (ls ! s)) \<and>
        (well_spaced ls \<longrightarrow> i # starts = filter (\<lambda>s. is_header (ls ! s)) [i..<length ls]) \<and>
        map entrant_key (outer_loop ls i []) = map (header_key ls) (i # starts)"
      proof (intro conjI)
        show "sorted_wrt (<) (i # starts)" using s(1) s(2) k by auto
        show "\<forall>s \<in> set (i # starts). i \<le> s \<and> s < length ls \<and> is_header (ls ! s)"
          using s(2) k True hd by auto
        show "well_spaced ls \<longrightarrow>
            i # starts = filter (\<lambda>s. is_header (ls ! s)) [i..<length ls]" by (rule w)
        show "map entrant_key (outer_loop ls i []) = map (header_key ls) (i # starts)"
          using s(4) key by (simp add: o)
      qed
      then show ?thesis by blast
    qed
  qed
qed

text \<open>
  C4. The horse name of every entrant is its name line without a final letter B. The
  entrants of the result start at header lines, in the order of these lines, and when none
  of the four lines after a header line is a header line every header line starts one. The
  entrant that starts at line \<open>i\<close> has the frame and horse numbers of that line, and its
  horse name is the stripped text of line \<open>i + 2\<close> with a final letter B removed, so that
  the name line \<open>ExampleHorseB\<close> gives \<open>ExampleHorse\<close> and a name line that does not end
  in B gives its stripped text unchanged.
\<close>

theorem horse_names_follow_name_lines:
  "\<exists>starts. sorted_wrt (<) starts \<and>
     (\<forall>i \<in> set starts. i < length ls \<and> is_header (ls ! i)) \<and>
     (well_spaced ls \<longrightarrow> starts = filter (\<lambda>i. is_header (ls ! i)) [0..<length ls]) \<and>
     map entrant_key (extract_horses_data ls) = map (header_key ls) starts"
  using outer_loop_names [of 0 ls] by (simp add: extract_horses_data_def)

lemma more_examples:
  "\<not> is_header (u ''Sire2'')" "\<not> is_header (u ''Name2'')"
  "strip (u ''Sire2'') = u ''Sire2''" "strip (u ''Name2'') = u ''Name2''"
  by (simp_all add: is_header_def frame_horse_rx_def eval_defs)

theorem horse_names_follow_name_lines_witness:
  "well_spaced [u ''1 1'', u ''SireName'', u ''ExampleHorseB'', u ''DamName'',
                u ''(DamSireName)'', u ''2 2'', u ''Sire2'', u ''Name2''] \<and>
   map h_horse_name
     (extract_horses_data [u ''1 1'', u ''SireName'', u ''ExampleHorseB'', u ''DamName'',
                           u ''(DamSireName)'', u ''2 2'', u ''Sire2'', u ''Name2'']) =
     [u ''ExampleHorse'', u ''Name2'']"
proof -
  define ls where "ls = [u ''1 1'', u ''SireName'', u ''ExampleHorseB'', u ''DamName'',
                u ''(DamSireName)'', u ''2 2'', u ''Sire2'', u ''Name2'']"
  have w: "well_spaced ls"
    by (simp add: ls_def is_header_examples more_examples)
  have up: "[0..<length ls] = [0, 1, 2, 3, 4, 5, 6, 7]"
    by (simp add: ls_def upt_rec)
  have f: "filter (\<lambda>i. is_header (ls ! i)) [0..<length ls] = [0, 5]"
    unfolding up by (simp add: ls_def is_header_examples more_examples)
  have k0: "header_key ls 0 = (u ''1'', u ''1'', u ''ExampleHorse'')"
    by (simp add: header_key_def horse_name_at_def ls_def header_numbers_examples
        strip_examples) (simp add: u_def)
  have k5: "header_key ls 5 = (u ''2'', u ''2'', u ''Name2'')"
    by (simp add: header_key_def horse_name_at_def ls_def header_numbers_examples
        more_examples) (simp add: u_def)
  from horse_names_follow_name_lines [of ls] w f
  have "map entrant_key (extract_horses_data ls) = map (header_key ls) [0, 5]" by auto
  then have "map entrant_key (extract_horses_data ls) =
      [(u ''1'', u ''1'', u ''ExampleHorse''), (u ''2'', u ''2'', u ''Name2'')]"
    by (simp add: k0 k5)
  then have "map (\<lambda>k. snd (snd k)) (map entrant_key (extract_horses_data ls)) =
      [u ''ExampleHorse'', u ''Name2'']" by simp
  then have "map h_horse_name (extract_horses_data ls) = [u ''ExampleHorse'', u ''Name2'']"
    by (simp add: entrant_key_def comp_def)
  with w show ?thesis unfolding ls_def by blast
qed

text \<open>The claim as stated fails: the name line \<open>ExampleHorse B\<close> does not give the
  horse name \<open>ExampleHorse\<close>.\<close>

theorem example_horse_B_counterexample:
  "h_horse_name (hd (extract_horses_data [u ''1 1'', u ''SireName'', u ''ExampleHorse B''])) =
     u ''ExampleHorse '' \<and>
   h_horse_name (hd (extract_horses_data [u ''1 1'', u ''SireName'', u ''ExampleHorse B''])) \<noteq>
     u ''ExampleHorse''"
proof -
  have a: "\<forall>l \<in> set []. \<not> is_header l" by simp
  have b: "strip (u ''SireName'') \<noteq> []" "strip (u ''ExampleHorse B'') \<noteq> []"
    by (simp_all add: strip_examples) (simp_all add: u_def)
  from first_entrant_horse_name [OF a is_header_examples(1) b(1) b(2), of "[]"]
  have "h_horse_name (hd (extract_horses_data [u ''1 1'', u ''SireName'', u ''ExampleHorse B''])) =
     u ''ExampleHorse ''"
    by (auto simp add: strip_examples) (simp_all add: u_def)
  then show ?thesis by (simp add: u_def)
qed

section \<open>Properties of the past-race parser\<close>

lemma firstly_iff: "firstly r st st' \<longleftrightarrow> (\<exists>rest. rx_run r st = st' # rest)"
  by (auto simp add: firstly_def split: list.splits)

lemma firstly_Seq: "firstly a st st1 \<Longrightarrow> firstly b st1 st2 \<Longrightarrow> firstly (Seq a b) st st2"
  by (auto simp add: firstly_iff)

lemma firstly_Grp:
  "firstly r (p, s, g) (p', s', g') \<Longrightarrow>
   firstly (Grp n r) (p, s, g) (p', s', (n, take (p' - p) s) # g')"
  by (auto simp add: firstly_iff)

lemma firstly_Str:
  "starts_with w s \<Longrightarrow> firstly (Str w) (p, s, g) (p + length w, drop (length w) s, g)"
  by (simp add: firstly_iff)

lemma firstly_plus:
  assumes "xs \<noteq> []" and "\<forall>c \<in> set xs. atom_ok a c"
    and "rest = [] \<or> \<not> atom_ok a (hd rest)"
  shows "firstly (plus a) (p, xs @ rest, g) (p + length xs, rest, g)"
proof -
  have "takeWhile (atom_ok a) rest = []" using assms(3) by (cases rest) auto
  then have t: "takeWhile (atom_ok a) (xs @ rest) = xs"
    using assms(2) by (simp add: takeWhile_append2)
  from assms(1) obtain n where n: "length xs = Suc n" by (cases xs) auto
  have "rev [1..<Suc (length xs)] = length xs # rev [1..<length xs]"
    by (simp add: n)
  then show ?thesis by (simp add: firstly_iff t Let_def)
qed

lemma match_at_firstly:
  "firstly r (p, s, []) (e, s', g) \<Longrightarrow> match_at r p s = Some (p, e, (0, take (e - p) s) # g)"
  by (auto simp add: firstly_iff match_at_def)

lemma search_from_first: "match_at r p s = Some m \<Longrightarrow> search_from r p s = Some m"
  by (cases s) simp_all

text \<open>The pattern of line 480 on a name without an opening parenthesis that is followed
  by a parenthesised run of digits, full stops and hyphens.\<close>

lemma winner_diff_search:
  assumes "name \<noteq> []" and "\<forall>c \<in> set name. c \<noteq> 0x28"
    and "tok \<noteq> []" and "\<forall>c \<in> set tok. (0x30 \<le> c \<and> c \<le> 0x39) \<or> c = 0x2E \<or> c = 0x2D"
  shows "\<exists>m. re_search winner_diff_rx (name @ 0x28 # tok @ 0x29 # tail) = Some m \<and>
           group m 1 = name \<and> group m 2 = tok"
proof -
  let ?r1 = "plus (NotIn [CChar 0x28])"
  let ?r2 = "plus (In [CRange 0x30 0x39, CChar 0x2E, CChar 0x2D])"
  let ?s = "name @ 0x28 # tok @ 0x29 # tail"
  let ?n = "length name" and ?t = "length tok"
  have 1: "firstly (Grp 1 ?r1) (0, ?s, []) (?n, 0x28 # tok @ 0x29 # tail, [(1, name)])"
    using firstly_Grp [OF firstly_plus [of name "NotIn [CChar 0x28]" "0x28 # tok @ 0x29 # tail" 0 "[]"], of 1]
      assms(1,2) by simp
  have 2: "firstly (Str [0x28]) (?n, 0x28 # tok @ 0x29 # tail, [(1, name)])
      (?n + 1, tok @ 0x29 # tail, [(1, name)])"
    using firstly_Str [of "[0x28]" "0x28 # tok @ 0x29 # tail" ?n "[(1, name)]"] by simp
  have 3: "firstly (Grp 2 ?r2) (?n + 1, tok @ 0x29 # tail, [(1, name)])
      (?n + 1 + ?t, 0x29 # tail, [(2, tok), (1, name)])"
    using firstly_Grp [OF firstly_plus [of tok "In [CRange 0x30 0x39, CChar 0x2E, CChar 0x2D]"
        "0x29 # tail" "?n + 1" "[(1, name)]"], of 2] assms(3,4) by simp
  have 4: "firstly (Str [0x29]) (?n + 1 + ?t, 0x29 # tail, [(2, tok), (1, name)])
      (?n + 1 + ?t + 1, tail, [(2, tok), (1, name)])"
    using firstly_Str [of "[0x29]" "0x29 # tail" "?n + 1 + ?t" "[(2, tok), (1, name)]"] by simp
  have "firstly winner_diff_rx (0, ?s, []) (?n + 1 + ?t + 1, tail, [(2, tok), (1, name)])"
    unfolding winner_diff_rx_def seqs.simps u_def
    using firstly_Seq [OF 1 firstly_Seq [OF 2 firstly_Seq [OF 3 4]]] by simp
  from match_at_firstly [OF this]
  have "re_search winner_diff_rx ?s =
      Some (0, ?n + 1 + ?t + 1, (0, take (?n + 1 + ?t + 1 - 0) ?s) # [(2, tok), (1, name)])"
    unfolding re_search_def by (rule search_from_first)
  then show ?thesis by simp
qed

lemma search_from_One:
  "search_from (One a) p s \<noteq> None \<Longrightarrow> \<exists>c \<in> set s. atom_ok a c"
proof (induction s arbitrary: p)
  case Nil
  then show ?case by (simp add: match_at_def)
next
  case (Cons c cs)
  show ?case
  proof (cases "atom_ok a c")
    case True
    then show ?thesis by simp
  next
    case False
    then have "match_at (One a) p (c # cs) = None" by (simp add: match_at_def)
    with Cons.prems have "search_from (One a) (Suc p) cs \<noteq> None" by simp
    from Cons.IH [OF this] show ?thesis by simp
  qed
qed

lemma digits_hyphens_chars:
  assumes "matches digits_hyphens_rx w" and "c \<in> set w"
  shows "is_digit c \<or> c = 0x2D \<or> c = 0x0A"
proof -
  from assms(1) obtain p' s' g' where
    r: "(p', s', g') \<in> set (rx_run digits_hyphens_rx (0, w, []))"
    by (cases "rx_run digits_hyphens_rx (0, w, [])") (auto simp add: re_match_def match_at_def)
  have i: "rx_within (\<lambda>c. is_digit c \<or> c = 0x2D) digits_hyphens_rx"
    by (simp add: digits_hyphens_rx_def)
  have e: "ends_at_eol digits_hyphens_rx" by (simp add: digits_hyphens_rx_def)
  from rx_run_within [OF i r] obtain xs where
    xs: "w = xs @ s'" "\<forall>c \<in> set xs. is_digit c \<or> c = 0x2D" by blast
  from rx_run_ends_at_eol [OF e r] have "s' = [] \<or> s' = [0x0A]" .
  with xs assms(2) show ?thesis by auto
qed

text \<open>No character of the class of line 493 is a decimal digit, a hyphen or a newline.\<close>

lemma name_letter_not_digit:
  assumes "(0x3042 \<le> c \<and> c \<le> 0x3093) \<or> (0x30A2 \<le> c \<and> c \<le> 0x30F3) \<or> c = 0x30FC \<or>
     (0x4E00 \<le> c \<and> c \<le> 0x9FAF) \<or> (0x61 \<le> c \<and> c \<le> 0x7A) \<or> (0x41 \<le> c \<and> c \<le> 0x5A)"
  shows "\<not> is_digit c \<and> c \<noteq> 0x2D \<and> c \<noteq> 0x0A"
  using assms by (simp add: is_digit_def nd_starts_def) linarith

lemma letter_excludes_digits_hyphens:
  assumes "found name_letter_rx w"
  shows "\<not> matches digits_hyphens_rx w"
proof
  assume m: "matches digits_hyphens_rx w"
  from assms have "search_from (One (In [CRange 0x3042 0x3093, CRange 0x30A2 0x30F3,
      CChar 0x30FC, CRange 0x4E00 0x9FAF, CRange 0x61 0x7A, CRange 0x41 0x5A])) 0 w \<noteq> None"
    by (simp add: re_search_def name_letter_rx_def)
  from search_from_One [OF this] obtain c where c: "c \<in> set w" and
    l: "(0x3042 \<le> c \<and> c \<le> 0x3093) \<or> (0x30A2 \<le> c \<and> c \<le> 0x30F3) \<or> c = 0x30FC \<or>
     (0x4E00 \<le> c \<and> c \<le> 0x9FAF) \<or> (0x61 \<le> c \<and> c \<le> 0x7A) \<or> (0x41 \<le> c \<and> c \<le> 0x5A)"
    by auto
  from digits_hyphens_chars [OF m c] name_letter_not_digit [OF l] show False by simp
qed

lemma winner_scan_skip: "winner_scan pre = None \<Longrightarrow> winner_scan (pre @ rest) = winner_scan rest"
  by (induction pre) (simp_all split: option.splits)

lemma winner_of_line_accepts:
  assumes "\<forall>c \<in> set name. c \<noteq> 0x28" and "found name_letter_rx (strip name)"
    and "tok \<noteq> []" and "\<forall>c \<in> set tok. (0x30 \<le> c \<and> c \<le> 0x39) \<or> c = 0x2E \<or> c = 0x2D"
  shows "winner_of_line (name @ 0x28 # tok @ 0x29 # tail) = Some (strip name, time_diff_text tok)"
proof -
  have "strip name \<noteq> []"
    using assms(2) by (auto simp add: re_search_def match_at_def name_letter_rx_def)
  then have "name \<noteq> []" by (auto simp add: strip_def)
  from winner_diff_search [OF this assms(1,3,4), of tail] obtain m where
    m: "re_search winner_diff_rx (name @ 0x28 # tok @ 0x29 # tail) = Some m"
      "group m 1 = name" "group m 2 = tok" by blast
  from letter_excludes_digits_hyphens [OF assms(2)]
  have "\<not> matches digits_hyphens_rx (strip name)" .
  with m assms(2) show ?thesis by (simp add: winner_of_line_def Let_def)
qed

lemmas float_defs = time_diff_text_def py_float_def to_binary64_def ilog2_def bit_length.simps
  div_half_even_def nat_of_digits_def ascii_digit_def nat_digits.simps Let_def

lemma time_diff_text_examples:
  "time_diff_text (u ''-'') = u ''-''"
  "time_diff_text (u ''0.0'') = u ''0.0''"
  "time_diff_text (u ''1.20'') = u ''1.2''"
  by (simp_all add: float_defs u_def)

lemma venue_fields_keeps:
  "pr_time_diff (venue_fields r race_line) = pr_time_diff r"
  "pr_winner_name (venue_fields r race_line) = pr_winner_name r"
  by (simp_all add: venue_fields_def Let_def split: option.splits)

lemma context_fields_keeps:
  "pr_time_diff (context_fields r all_text) = pr_time_diff r"
  "pr_winner_name (context_fields r all_text) = pr_winner_name r"
  by (simp_all add: context_fields_def Let_def split: option.splits)

lemma position_fields_keeps:
  "pr_time_diff (position_fields r race_line all_text) = pr_time_diff r"
  "pr_winner_name (position_fields r race_line all_text) = pr_winner_name r"
  by (simp_all add: position_fields_def Let_def split: option.splits)

lemma parse_past_race_winner:
  "pr_time_diff (parse_past_race race_line context_lines) =
     (case winner_scan context_lines of Some (winner_name, time_diff) \<Rightarrow> time_diff | None \<Rightarrow> [])"
  "pr_winner_name (parse_past_race race_line context_lines) =
     (case winner_scan context_lines of Some (winner_name, time_diff) \<Rightarrow> winner_name | None \<Rightarrow> [])"
  by (simp_all add: parse_past_race_def Let_def venue_fields_keeps context_fields_keeps
      position_fields_keeps empty_race_result_def split: option.splits)

lemma time_diff_of_line:
  assumes "winner_scan pre = None" and "\<forall>c \<in> set name. c \<noteq> 0x28"
    and "found name_letter_rx (strip name)"
    and "tok \<noteq> []" and "\<forall>c \<in> set tok. (0x30 \<le> c \<and> c \<le> 0x39) \<or> c = 0x2E \<or> c = 0x2D"
  shows "pr_time_diff (parse_past_race race_line
           (pre @ (name @ 0x28 # tok @ 0x29 # tail) # post)) = time_diff_text tok"
    and "pr_winner_name (parse_past_race race_line
           (pre @ (name @ 0x28 # tok @ 0x29 # tail) # post)) = strip name"
  using winner_scan_skip [OF assms(1)] winner_of_line_accepts [OF assms(2-5)]
  by (simp_all add: parse_past_race_winner)

text \<open>
  C6. A context line made of a name that holds a letter of the class of line 493 and no
  opening parenthesis, followed at once by a parenthesised token, gives the time
  difference of the result when no earlier context line gives a winner: the token
  \<open>(-)\<close> gives \<open>-\<close>, the token \<open>(0.0)\<close> gives \<open>0.0\<close>, and the token \<open>(1.20)\<close>
  gives \<open>1.2\<close>, the binary64 number nearest to 1.20 printed with one decimal.
\<close>

theorem time_diff_classification:
  assumes "winner_scan pre = None" and "\<forall>c \<in> set name. c \<noteq> 0x28"
    and "found name_letter_rx (strip name)"
  shows "pr_time_diff (parse_past_race race_line
           (pre @ (name @ u ''(-)'' @ tail) # post)) = u ''-'' \<and>
         pr_time_diff (parse_past_race race_line
           (pre @ (name @ u ''(0.0)'' @ tail) # post)) = u ''0.0'' \<and>
         pr_time_diff (parse_past_race race_line
           (pre @ (name @ u ''(1.20)'' @ tail) # post)) = u ''1.2''"
proof -
  have 1: "name @ u ''(-)'' @ tail = name @ 0x28 # u ''-'' @ 0x29 # tail"
    and 2: "name @ u ''(0.0)'' @ tail = name @ 0x28 # u ''0.0'' @ 0x29 # tail"
    and 3: "name @ u ''(1.20)'' @ tail = name @ 0x28 # u ''1.20'' @ 0x29 # tail"
    by (simp_all add: u_def)
  have t: "u ''-'' \<noteq> []" "u ''0.0'' \<noteq> []" "u ''1.20'' \<noteq> []"
    "\<forall>c \<in> set (u ''-''). (0x30 \<le> c \<and> c \<le> 0x39) \<or> c = 0x2E \<or> c = 0x2D"
    "\<forall>c \<in> set (u ''0.0''). (0x30 \<le> c \<and> c \<le> 0x39) \<or> c = 0x2E \<or> c = 0x2D"
    "\<forall>c \<in> set (u ''1.20''). (0x30 \<le> c \<and> c \<le> 0x39) \<or> c = 0x2E \<or> c = 0x2D"
    by (simp_all add: u_def)
  show ?thesis
    unfolding 1 2 3
    using time_diff_of_line(1) [OF assms t(1) t(4)] time_diff_of_line(1) [OF assms t(2) t(5)]
      time_diff_of_line(1) [OF assms t(3) t(6)]
    by (simp only: time_diff_text_examples)
qed

lemma winner_examples:
  "winner_scan [u ''2025.05.18 Tokyo1''] = None"
  "found name_letter_rx (strip (u ''Foo''))"
  by (simp_all add: winner_of_line_def winner_diff_rx_def name_letter_rx_def eval_defs)

theorem time_diff_classification_witness:
  "winner_scan [u ''2025.05.18 Tokyo1''] = None \<and> found name_letter_rx (strip (u ''Foo'')) \<and>
   pr_time_diff (parse_past_race (u ''2025.05.18 Tokyo1'')
     [u ''2025.05.18 Tokyo1'', u ''Foo(-)'']) = u ''-'' \<and>
   pr_time_diff (parse_past_race (u ''2025.05.18 Tokyo1'')
     [u ''2025.05.18 Tokyo1'', u ''Foo(0.0)'']) = u ''0.0'' \<and>
   pr_time_diff (parse_past_race (u ''2025.05.18 Tokyo1'')
     [u ''2025.05.18 Tokyo1'', u ''Foo(1.20)'']) = u ''1.2''"
proof -
  have n: "\<forall>c \<in> set (u ''Foo''). c \<noteq> 0x28" by (simp add: u_def)
  have a: "u x @ u y = u (x @ y)" for x y by (simp add: u_def)
  from time_diff_classification [OF winner_examples(1) n winner_examples(2),
      of "u ''2025.05.18 Tokyo1''" "[]" "[]"]
  have "pr_time_diff (parse_past_race (u ''2025.05.18 Tokyo1'')
     [u ''2025.05.18 Tokyo1'', u ''Foo(-)'']) = u ''-'' \<and>
   pr_time_diff (parse_past_race (u ''2025.05.18 Tokyo1'')
     [u ''2025.05.18 Tokyo1'', u ''Foo(0.0)'']) = u ''0.0'' \<and>
   pr_time_diff (parse_past_race (u ''2025.05.18 Tokyo1'')
     [u ''2025.05.18 Tokyo1'', u ''Foo(1.20)'']) = u ''1.2''"
    by (simp add: a)
  with winner_examples show ?thesis by blast
qed

end
